theory Spec2Isabelle
  imports Main "HOL-Library.Monad_Syntax"
begin

section \<open>The matching engine of hft-sim.cpp\<close>

text \<open>
  A shallow embedding of \<^verbatim>\<open>src/hft-sim.cpp\<close>: the order pool, the per-level ring
  buffers, the order book with its best-price caches and the engine's public operations
  \<^verbatim>\<open>placeLimit\<close>, \<open>placeMarket\<close>, \<open>cancel\<close> and \<open>replace\<close>.

  Conventions.
  \<^item> \<open>u64\<close> and \<open>size_t\<close> values (client ids, pool indices, ring cursors) are \<open>nat\<close>;
    the only arithmetic the source does on them is cursor arithmetic modulo the ring
    size, which stays far below \<open>2^64\<close>. \<open>int\<close> price indices are \<open>int\<close>: they are
    only compared and scanned between \<open>-1\<close> and \<open>nlevels\<close>.
  \<^item> \<open>i64\<close> quantities are \<open>int\<close>. The level counter \<open>totalQty\<close> accumulates with
    \<open>+=\<close> and \<open>-=\<close> and can leave the range of \<open>i64\<close>; signed overflow is undefined in
    C++, and the model writes out the two's complement wrap-around the compiled program
    computes (\<open>wrap_i64\<close>). The quantity of an order is only ever reduced by a fill
    \<open>min(maker.qty, taker.qty)\<close> with \<open>taker.qty > 0\<close>: \<open>maker.qty - fill\<close> is \<open>0\<close> or lies
    between \<open>0\<close> and \<open>maker.qty\<close>, and \<open>taker.qty - fill\<close> lies between \<open>0\<close> and
    \<open>taker.qty\<close> whenever the maker's quantity is positive, so these stay in range.
  \<^item> Every operation returns an \<open>option\<close>. \<open>None\<close> stands for every way in which the C++
    call does not return normally: a thrown \<open>runtime_error\<close> (pool exhausted, ring
    full, pop from an empty ring), undefined behaviour (an unchecked \<open>vector\<close> access out
    of range, \<open>%\<close> by zero) or a loop that never ends. \<open>Some\<close> is a normal return.
  \<^item> The \<open>TimePoint now\<close> argument is the nanosecond count it is converted to. The
    clock that \<open>emitTrade\<close> reads is the parameter \<open>clk\<close>: \<open>clk k\<close> is the reading
    taken when the trade log holds \<open>k\<close> records.
\<close>

subsection \<open>Enums and the order record\<close>

datatype Side = BUY | SELL
datatype OrderType = LIMIT | MARKET
datatype TimeInForce = GFD | IOC | FOK

record Order =
  clientId :: nat
  engineId :: nat
  side :: Side
  otype :: OrderType
  tif :: TimeInForce
  priceIdx :: int
  qty :: int
  ts :: nat
  active :: bool

text \<open>The member initialisers of \<open>struct Order\<close>.\<close>

definition Order_default :: Order where
  "Order_default = \<lparr>clientId = 0, engineId = 0, side = BUY, otype = LIMIT, tif = GFD,
     priceIdx = -1, qty = 0, ts = 0, active = False\<rparr>"

definition PRICE_LEVELS :: nat where "PRICE_LEVELS = 20001"
definition ORDER_POOL_CAPACITY :: nat where "ORDER_POOL_CAPACITY = 3000000"
definition RING_CAPACITY_PER_LEVEL :: nat where "RING_CAPACITY_PER_LEVEL = 4096"
definition UINT64_MAX :: nat where "UINT64_MAX = 18446744073709551615"

subsection \<open>Unchecked vector access\<close>

text \<open>
  \<open>v[i]\<close> on a \<open>std::vector\<close> is unchecked: out of range it is undefined behaviour,
  here \<open>None\<close>. An \<open>int\<close> index is converted to \<open>size_t\<close>, so a negative one is out of
  range as well.
\<close>

definition at :: "'a list \<Rightarrow> nat \<Rightarrow> 'a option" where
  "at xs i = (if i < length xs then Some (xs ! i) else None)"

definition put :: "'a list \<Rightarrow> nat \<Rightarrow> 'a \<Rightarrow> 'a list option" where
  "put xs i v = (if i < length xs then Some (xs[i := v]) else None)"

definition at_int :: "'a list \<Rightarrow> int \<Rightarrow> 'a option" where
  "at_int xs i = (if 0 \<le> i then at xs (nat i) else None)"

definition put_int :: "'a list \<Rightarrow> int \<Rightarrow> 'a \<Rightarrow> 'a list option" where
  "put_int xs i v = (if 0 \<le> i then put xs (nat i) v else None)"

subsection \<open>Arithmetic of the i64 level counter\<close>

text \<open>
  The value an \<open>i64\<close> holds after an addition or subtraction whose mathematical result
  is \<open>x\<close>: \<open>x\<close> itself in the range \<open>-2^63 .. 2^63 - 1\<close>, and \<open>x\<close> reduced modulo \<open>2^64\<close>
  into that range otherwise.
\<close>

definition wrap_i64 :: "int \<Rightarrow> int" where
  "wrap_i64 x = (x + 9223372036854775808) mod 18446744073709551616 - 9223372036854775808"

subsection \<open>OrderPool\<close>

text \<open>
  The vector \<open>OrderPool::pool\<close> is the field \<open>slots\<close> (the name \<open>pool\<close> is kept for
  the engine's member). \<open>freeList.back()\<close> is the last element of the list.
\<close>

record OrderPool =
  slots :: "Order list"
  freeList :: "nat list"

definition OrderPool_init :: "nat \<Rightarrow> OrderPool" where
  "OrderPool_init cap =
     \<lparr>slots = replicate cap Order_default, freeList = map (\<lambda>i. cap - 1 - i) [0..<cap]\<rparr>"

definition allocate :: "Order \<Rightarrow> OrderPool \<Rightarrow> (nat \<times> OrderPool) option" where
  "allocate ord p =
     (if freeList p = [] then None
      else do {
        let idx = last (freeList p);
        sl \<leftarrow> put (slots p) idx (ord\<lparr>engineId := idx, active := True\<rparr>);
        Some (idx, \<lparr>slots = sl, freeList = butlast (freeList p)\<rparr>)
      })"

definition free :: "nat \<Rightarrow> OrderPool \<Rightarrow> OrderPool option" where
  "free idx p = do {
     old \<leftarrow> at (slots p) idx;
     Some \<lparr>slots = (slots p)[idx := old\<lparr>active := False, qty := 0\<rparr>],
           freeList = freeList p @ [idx]\<rparr>
   }"

definition get :: "OrderPool \<Rightarrow> nat \<Rightarrow> Order option" where
  "get p idx = at (slots p) idx"

subsection \<open>RingLevel\<close>

record RingLevel =
  data :: "nat list"
  head :: nat
  tail :: nat
  totalQty :: int

definition RingLevel_init :: "nat \<Rightarrow> RingLevel" where
  "RingLevel_init w = \<lparr>data = replicate w UINT64_MAX, head = 0, tail = 0, totalQty = 0\<rparr>"

definition RingLevel_empty :: "RingLevel \<Rightarrow> bool" where
  "RingLevel_empty l = (head l = tail l)"

definition RingLevel_full :: "RingLevel \<Rightarrow> bool option" where
  "RingLevel_full l =
     (if length (data l) = 0 then None
      else Some ((tail l + 1) mod length (data l) = head l))"

definition push :: "nat \<Rightarrow> int \<Rightarrow> RingLevel \<Rightarrow> RingLevel option" where
  "push eid q l = do {
     f \<leftarrow> RingLevel_full l;
     if f then None
     else do {
       d \<leftarrow> put (data l) (tail l) eid;
       Some (l\<lparr>data := d, tail := (tail l + 1) mod length (data l),
               totalQty := wrap_i64 (totalQty l + q)\<rparr>)
     }
   }"

definition front :: "RingLevel \<Rightarrow> nat option" where
  "front l = at (data l) (head l)"

definition pop_front :: "int \<Rightarrow> RingLevel \<Rightarrow> RingLevel option" where
  "pop_front q l =
     (if RingLevel_empty l then None
      else do {
        d \<leftarrow> put (data l) (head l) UINT64_MAX;
        if length (data l) = 0 then None
        else Some (l\<lparr>data := d, head := (head l + 1) mod length (data l),
                     totalQty := wrap_i64 (totalQty l - q)\<rparr>)
      })"

subsection \<open>OrderBook\<close>

record OrderBook =
  nlevels :: int
  bids :: "RingLevel list"
  asks :: "RingLevel list"
  bestBid :: int
  bestAsk :: int

definition OrderBook_init :: "nat \<Rightarrow> nat \<Rightarrow> OrderBook" where
  "OrderBook_init levels w =
     \<lparr>nlevels = int levels, bids = replicate levels (RingLevel_init w),
      asks = replicate levels (RingLevel_init w), bestBid = -1, bestAsk = -1\<rparr>"

definition updateBestAfterAdd :: "Side \<Rightarrow> int \<Rightarrow> OrderBook \<Rightarrow> OrderBook" where
  "updateBestAfterAdd s idx b =
     (if s = BUY then (if bestBid b < idx then b\<lparr>bestBid := idx\<rparr> else b)
      else (if bestAsk b = -1 \<or> idx < bestAsk b then b\<lparr>bestAsk := idx\<rparr> else b))"

text \<open>
  The two \<open>for\<close> loops of \<open>updateBestAfterRemove\<close>: the index of the first non-empty
  level found, or \<open>-1\<close>.
\<close>

function scanDown :: "RingLevel list \<Rightarrow> int \<Rightarrow> int option" where
  "scanDown lv i =
     (if 0 \<le> i then
        (case at_int lv i of
           None \<Rightarrow> None
         | Some l \<Rightarrow> if \<not> RingLevel_empty l then Some i else scanDown lv (i - 1))
      else Some (-1))"
  by pat_completeness auto
termination
  by (relation "measure (\<lambda>(lv, i). nat (i + 1))") auto

function scanUp :: "RingLevel list \<Rightarrow> int \<Rightarrow> int \<Rightarrow> int option" where
  "scanUp lv n i =
     (if i < n then
        (case at_int lv i of
           None \<Rightarrow> None
         | Some l \<Rightarrow> if \<not> RingLevel_empty l then Some i else scanUp lv n (i + 1))
      else Some (-1))"
  by pat_completeness auto
termination
  by (relation "measure (\<lambda>(lv, n, i). nat (n - i))") auto

declare scanDown.simps [simp del] scanUp.simps [simp del]

definition updateBestAfterRemove :: "Side \<Rightarrow> int \<Rightarrow> OrderBook \<Rightarrow> OrderBook option" where
  "updateBestAfterRemove s idx b =
     (if s = BUY then
        (if bestBid b \<noteq> idx then Some b
         else do { i \<leftarrow> scanDown (bids b) idx; Some (b\<lparr>bestBid := i\<rparr>) })
      else
        (if bestAsk b \<noteq> idx then Some b
         else do { i \<leftarrow> scanUp (asks b) (nlevels b) idx; Some (b\<lparr>bestAsk := i\<rparr>) }))"

subsection \<open>Trades and the engine state\<close>

record Trade =
  takerClient :: nat
  makerClient :: nat
  trade_qty :: int
  trade_priceIdx :: int
  trade_ts :: nat

record Engine =
  pool :: OrderPool
  book :: OrderBook
  clientToEngine :: "nat \<rightharpoonup> nat"
  trades :: "Trade list"
  nextClientId :: nat

definition Engine_new :: "nat \<Rightarrow> nat \<Rightarrow> nat \<Rightarrow> Engine" where
  "Engine_new cap levels w =
     \<lparr>pool = OrderPool_init cap, book = OrderBook_init levels w,
      clientToEngine = Map.empty, trades = [], nextClientId = 1\<rparr>"

definition Engine_init :: Engine where
  "Engine_init = Engine_new ORDER_POOL_CAPACITY PRICE_LEVELS RING_CAPACITY_PER_LEVEL"

definition validIdx :: "Engine \<Rightarrow> int \<Rightarrow> bool" where
  "validIdx e idx = (0 \<le> idx \<and> idx < nlevels (book e))"

definition emitTrade :: "(nat \<Rightarrow> nat) \<Rightarrow> Order \<Rightarrow> Order \<Rightarrow> int \<Rightarrow> int \<Rightarrow> Engine \<Rightarrow> Engine" where
  "emitTrade clk taker maker q p e =
     e\<lparr>trades := trades e @
          [\<lparr>takerClient = clientId taker, makerClient = clientId maker, trade_qty = q,
            trade_priceIdx = p, trade_ts = clk (length (trades e))\<rparr>]\<rparr>"

subsection \<open>The matching sweep\<close>

text \<open>
  The four \<open>while\<close> loops of \<open>matchAndAdd\<close> and \<open>matchMarket\<close> have the same body up
  to the side of the book they consume: a BUY taker reads \<open>book.asks\<close>, \<open>book.bestAsk\<close>
  and calls \<open>updateBestAfterRemove(Side::SELL, _)\<close>, a SELL taker the mirror image. The
  body is \<open>matchStep\<close>, with the makers' side computed from the taker's; the accessors
  \<open>levels\<close>, \<open>best\<close> and \<open>set_levels\<close> select the side.
\<close>

definition opposite :: "Side \<Rightarrow> Side" where
  "opposite s = (if s = BUY then SELL else BUY)"

definition levels :: "Side \<Rightarrow> OrderBook \<Rightarrow> RingLevel list" where
  "levels s b = (if s = BUY then bids b else asks b)"

definition best :: "Side \<Rightarrow> OrderBook \<Rightarrow> int" where
  "best s b = (if s = BUY then bestBid b else bestAsk b)"

definition set_levels :: "Side \<Rightarrow> RingLevel list \<Rightarrow> OrderBook \<Rightarrow> OrderBook" where
  "set_levels s lv b = (if s = BUY then b\<lparr>bids := lv\<rparr> else b\<lparr>asks := lv\<rparr>)"

definition matchStep :: "(nat \<Rightarrow> nat) \<Rightarrow> Order \<times> Engine \<Rightarrow> (Order \<times> Engine) option" where
  "matchStep clk te =
     (case te of (taker, e) \<Rightarrow>
        let ms = opposite (side taker); bi = best ms (book e) in
        do {
          pl \<leftarrow> at_int (levels ms (book e)) bi;
          if RingLevel_empty pl then do {
            b' \<leftarrow> updateBestAfterRemove ms bi (book e);
            Some (taker, e\<lparr>book := b'\<rparr>)
          }
          else do {
            makerEid \<leftarrow> front pl;
            maker \<leftarrow> get (pool e) makerEid;
            let fill = min (qty maker) (qty taker);
            let e1 = emitTrade clk taker maker fill (priceIdx maker) e;
            let maker1 = maker\<lparr>qty := qty maker - fill\<rparr>;
            let p1 = (pool e)\<lparr>slots := (slots (pool e))[makerEid := maker1]\<rparr>;
            let pl1 = pl\<lparr>totalQty := wrap_i64 (totalQty pl - fill)\<rparr>;
            let taker1 = taker\<lparr>qty := qty taker - fill\<rparr>;
            (pl2, p2, c2) \<leftarrow>
              (if qty maker1 = 0 then do {
                 pl' \<leftarrow> pop_front 0 pl1;
                 p' \<leftarrow> free makerEid p1;
                 Some (pl', p', (clientToEngine e)(clientId maker1 := None))
               }
               else Some (pl1, p1, clientToEngine e));
            lv \<leftarrow> put_int (levels ms (book e)) bi pl2;
            let b1 = set_levels ms lv (book e);
            b2 \<leftarrow> (if RingLevel_empty pl2 then updateBestAfterRemove ms bi b1 else Some b1);
            Some (taker1, e1\<lparr>pool := p2, book := b2, clientToEngine := c2\<rparr>)
          }
        })"

text \<open>
  The loop condition. \<open>priced\<close> is true for the loops of \<open>matchAndAdd\<close>, which stop at
  the taker's limit price, and false for those of \<open>matchMarket\<close>.
\<close>

definition sweepCond :: "bool \<Rightarrow> Order \<times> Engine \<Rightarrow> bool" where
  "sweepCond priced te =
     (case te of (taker, e) \<Rightarrow>
        let bo = best (opposite (side taker)) (book e) in
        0 < qty taker \<and> bo \<noteq> -1 \<and>
        (\<not> priced \<or> (if side taker = BUY then bo \<le> priceIdx taker else priceIdx taker \<le> bo)))"

partial_function (option) sweep ::
    "(nat \<Rightarrow> nat) \<Rightarrow> bool \<Rightarrow> Order \<times> Engine \<Rightarrow> (Order \<times> Engine) option" where
  "sweep clk priced te =
     (if sweepCond priced te then matchStep clk te \<bind> sweep clk priced else Some te)"

declare sweep.simps [code]

definition matchAndAdd :: "(nat \<Rightarrow> nat) \<Rightarrow> Order \<Rightarrow> Engine \<Rightarrow> Engine option" where
  "matchAndAdd clk taker0 e0 = do {
     (taker, e) \<leftarrow> sweep clk True (taker0, e0);
     if 0 < qty taker \<and> otype taker = LIMIT then do {
       (eid, p') \<leftarrow> allocate taker (pool e);
       lvl \<leftarrow> at_int (levels (side taker) (book e)) (priceIdx taker);
       lvl' \<leftarrow> push eid (qty taker) lvl;
       lv \<leftarrow> put_int (levels (side taker) (book e)) (priceIdx taker) lvl';
       let b = updateBestAfterAdd (side taker) (priceIdx taker) (set_levels (side taker) lv (book e));
       Some (e\<lparr>pool := p', book := b, clientToEngine := (clientToEngine e)(clientId taker \<mapsto> eid)\<rparr>)
     }
     else Some e
   }"

definition matchMarket :: "(nat \<Rightarrow> nat) \<Rightarrow> Order \<Rightarrow> Engine \<Rightarrow> Engine option" where
  "matchMarket clk taker0 e0 = do {
     (taker, e) \<leftarrow> sweep clk False (taker0, e0);
     Some e
   }"

subsection \<open>The public operations\<close>

definition placeLimit ::
    "(nat \<Rightarrow> nat) \<Rightarrow> nat \<Rightarrow> Side \<Rightarrow> int \<Rightarrow> int \<Rightarrow> nat \<Rightarrow> TimeInForce \<Rightarrow> Engine \<Rightarrow> Engine option" where
  "placeLimit clk cid s pidx q now t e =
     matchAndAdd clk
       (Order_default\<lparr>clientId := cid, side := s, otype := LIMIT, priceIdx := pidx, qty := q,
          ts := now, tif := t\<rparr>) e"

definition placeMarket ::
    "(nat \<Rightarrow> nat) \<Rightarrow> nat \<Rightarrow> Side \<Rightarrow> int \<Rightarrow> nat \<Rightarrow> Engine \<Rightarrow> Engine option" where
  "placeMarket clk cid s q now e =
     matchMarket clk
       (Order_default\<lparr>clientId := cid, side := s, otype := MARKET, priceIdx := -1, qty := q,
          ts := now\<rparr>) e"

text \<open>
  The linear scan of \<open>cancel\<close> from \<open>head\<close> towards \<open>tail\<close>: the result is the pair
  \<open>(found, pos)\<close>. (The counter \<open>idxpos\<close> of the source is never read.)
\<close>

partial_function (option) cancelScan ::
    "nat list \<Rightarrow> nat \<Rightarrow> nat \<Rightarrow> nat \<Rightarrow> (bool \<times> nat) option" where
  "cancelScan dat tailp eid pos =
     (if pos \<noteq> tailp then
        (case at dat pos of
           None \<Rightarrow> None
         | Some x \<Rightarrow>
             if x = eid then Some (True, pos)
             else if length dat = 0 then None
             else cancelScan dat tailp eid ((pos + 1) mod length dat))
      else Some (False, pos))"

declare cancelScan.simps [code]

text \<open>
  The compaction loop of \<open>cancel\<close>: every entry after \<open>cur\<close> moves one place towards
  the head, up to the last occupied place \<open>lastp = (tail + sz - 1) % sz\<close>.
\<close>

partial_function (option) cancelShift :: "nat list \<Rightarrow> nat \<Rightarrow> nat \<Rightarrow> nat list option" where
  "cancelShift dat lastp cur =
     (if cur \<noteq> lastp then
        (if length dat = 0 then None
         else
           (case at dat ((cur + 1) mod length dat) of
              None \<Rightarrow> None
            | Some x \<Rightarrow>
                (case put dat cur x of
                   None \<Rightarrow> None
                 | Some dat' \<Rightarrow> cancelShift dat' lastp ((cur + 1) mod length dat))))
      else Some dat)"

declare cancelShift.simps [code]

definition cancel :: "nat \<Rightarrow> Engine \<Rightarrow> (bool \<times> Engine) option" where
  "cancel cid e =
     (case clientToEngine e cid of
        None \<Rightarrow> Some (False, e)
      | Some eid \<Rightarrow> do {
          ord \<leftarrow> get (pool e) eid;
          if \<not> active ord then Some (False, e\<lparr>clientToEngine := (clientToEngine e)(cid := None)\<rparr>)
          else do {
            lvl \<leftarrow> at_int (levels (side ord) (book e)) (priceIdx ord);
            (found, pos) \<leftarrow> cancelScan (data lvl) (tail lvl) eid (head lvl);
            if \<not> found then do {
              p' \<leftarrow> free eid (pool e);
              Some (False, e\<lparr>pool := p', clientToEngine := (clientToEngine e)(cid := None)\<rparr>)
            }
            else if length (data lvl) = 0 then None
            else do {
              let sz = length (data lvl);
              let lastp = (tail lvl + sz - 1) mod sz;
              dat \<leftarrow> cancelShift (data lvl) lastp pos;
              let lvl' = lvl\<lparr>data := dat, tail := lastp, totalQty := wrap_i64 (totalQty lvl - qty ord)\<rparr>;
              p' \<leftarrow> free eid (pool e);
              lv \<leftarrow> put_int (levels (side ord) (book e)) (priceIdx ord) lvl';
              let b1 = set_levels (side ord) lv (book e);
              b2 \<leftarrow> (if RingLevel_empty lvl' then updateBestAfterRemove (side ord) (priceIdx ord) b1
                     else Some b1);
              Some (True, e\<lparr>pool := p', book := b2, clientToEngine := (clientToEngine e)(cid := None)\<rparr>)
            }
          }
        })"

text \<open>
  \<open>replace\<close> keeps the reference \<open>old\<close> into the pool across the call of \<open>cancel\<close> and
  reads \<open>old.side\<close> and \<open>old.tif\<close> from it afterwards: the model reads the slot again
  in the state \<open>cancel\<close> returns. The result of \<open>cancel\<close> is ignored, as in the source.
\<close>

definition replace ::
    "(nat \<Rightarrow> nat) \<Rightarrow> nat \<Rightarrow> int \<Rightarrow> int \<Rightarrow> nat \<Rightarrow> Engine \<Rightarrow> (bool \<times> Engine) option" where
  "replace clk cid newPriceIdx newQty now e =
     (case clientToEngine e cid of
        None \<Rightarrow> Some (False, e)
      | Some oldEid \<Rightarrow> do {
          old \<leftarrow> get (pool e) oldEid;
          if \<not> active old then Some (False, e)
          else do {
            (r, e1) \<leftarrow> cancel cid e;
            old' \<leftarrow> get (pool e1) oldEid;
            e2 \<leftarrow> placeLimit clk cid (side old') newPriceIdx newQty now (tif old') e1;
            Some (True, e2)
          }
        })"

subsection \<open>Concrete inputs\<close>

text \<open>A clock that always reads 0, and a two-slot pool whose slot 0 holds an active order.\<close>

definition clk0 :: "nat \<Rightarrow> nat" where
  "clk0 k = 0"

definition demo_pool :: OrderPool where
  "demo_pool =
     \<lparr>slots = [Order_default\<lparr>clientId := 7, side := SELL, tif := IOC, priceIdx := 5000, qty := 3,
                 active := True\<rparr>, Order_default],
      freeList = [1]\<rparr>"

section \<open>Invariants and auxiliary notions\<close>

subsection \<open>The contents of a ring\<close>

text \<open>
  A ring is in order when both cursors are below its capacity. It then holds
  \<open>ring_count\<close> engine ids, \<open>ring_list\<close> from the head to the tail: the order in which
  \<open>push\<close> stored them.
\<close>

definition ring_ok :: "RingLevel \<Rightarrow> bool" where
  "ring_ok l \<longleftrightarrow> head l < length (data l) \<and> tail l < length (data l)"

definition ring_count :: "RingLevel \<Rightarrow> nat" where
  "ring_count l = (tail l + length (data l) - head l) mod length (data l)"

definition ring_list :: "RingLevel \<Rightarrow> nat list" where
  "ring_list l = map (\<lambda>k. data l ! ((head l + k) mod length (data l))) [0..<ring_count l]"

subsection \<open>The invariant of the engine\<close>

text \<open>
  A level of side \<open>s\<close> at index \<open>i\<close> holds distinct slots of active orders of that
  side and price with a positive remaining quantity, and its counter is the sum of their
  quantities as an \<open>i64\<close> holds it. The free list holds distinct inactive slots. \<open>book_wf\<close> asks this of
  every level and lets the best caches be stale as long as they are in range: it holds
  between two iterations of a sweep. \<open>engine_inv\<close> adds that the caches are exact and
  the book is not crossed: it holds between two public operations.
\<close>

definition level_inv :: "Order list \<Rightarrow> Side \<Rightarrow> nat \<Rightarrow> RingLevel \<Rightarrow> bool" where
  "level_inv sl s i l \<longleftrightarrow>
     ring_ok l \<and> distinct (ring_list l) \<and>
     (\<forall>x\<in>set (ring_list l). x < length sl \<and> active (sl ! x) \<and> side (sl ! x) = s \<and>
          priceIdx (sl ! x) = int i \<and> 0 < qty (sl ! x)) \<and>
     totalQty l = wrap_i64 (\<Sum>x\<leftarrow>ring_list l. qty (sl ! x))"

definition side_inv :: "Order list \<Rightarrow> Side \<Rightarrow> RingLevel list \<Rightarrow> bool" where
  "side_inv sl s lv \<longleftrightarrow> (\<forall>i<length lv. level_inv sl s i (lv ! i))"

definition free_inv :: "OrderPool \<Rightarrow> bool" where
  "free_inv p \<longleftrightarrow>
     distinct (freeList p) \<and> (\<forall>x\<in>set (freeList p). x < length (slots p) \<and> \<not> active (slots p ! x))"

definition best_in_range :: "Side \<Rightarrow> OrderBook \<Rightarrow> bool" where
  "best_in_range s b \<longleftrightarrow> best s b = -1 \<or> (0 \<le> best s b \<and> best s b < nlevels b)"

definition book_wf :: "Engine \<Rightarrow> bool" where
  "book_wf e \<longleftrightarrow>
     (\<forall>s. nlevels (book e) = int (length (levels s (book e)))) \<and>
     (\<forall>s. side_inv (slots (pool e)) s (levels s (book e))) \<and>
     free_inv (pool e) \<and>
     (\<forall>s. best_in_range s (book e))"

definition better :: "Side \<Rightarrow> int \<Rightarrow> int \<Rightarrow> bool" where
  "better s i j \<longleftrightarrow> (if s = BUY then j < i else i < j)"

definition best_exact :: "Side \<Rightarrow> OrderBook \<Rightarrow> bool" where
  "best_exact s b \<longleftrightarrow>
     (if best s b = -1 then (\<forall>i<length (levels s b). RingLevel_empty (levels s b ! i))
      else 0 \<le> best s b \<and> nat (best s b) < length (levels s b) \<and>
           \<not> RingLevel_empty (levels s b ! nat (best s b)) \<and>
           (\<forall>i<length (levels s b). better s (int i) (best s b) \<longrightarrow> RingLevel_empty (levels s b ! i)))"

definition uncrossed :: "OrderBook \<Rightarrow> bool" where
  "uncrossed b \<longleftrightarrow> (bestBid b \<noteq> -1 \<and> bestAsk b \<noteq> -1 \<longrightarrow> bestBid b < bestAsk b)"

definition engine_inv :: "Engine \<Rightarrow> bool" where
  "engine_inv e \<longleftrightarrow> book_wf e \<and> (\<forall>s. best_exact s (book e)) \<and> uncrossed (book e)"

subsection \<open>The measure of the sweep\<close>

text \<open>
  \<open>best_dist s b\<close> counts the levels the cache of side \<open>s\<close> can still visit on its
  way to \<open>-1\<close>: downwards for bids, upwards for asks.
\<close>

definition best_dist :: "Side \<Rightarrow> OrderBook \<Rightarrow> nat" where
  "best_dist s b =
     (if best s b = -1 then 0
      else if s = BUY then nat (best s b + 1) else nat (nlevels b - best s b))"

definition sweep_measure :: "Order \<times> Engine \<Rightarrow> nat" where
  "sweep_measure te = (case te of (t, e) \<Rightarrow> nat (qty t) + best_dist (opposite (side t)) (book e))"


subsection \<open>Sessions\<close>

text \<open>
  A request is one call of a public operation with its arguments; \<open>run\<close> performs a
  list of requests and fails as soon as one of them does.
\<close>

datatype Request =
    PlaceLimit nat Side int int nat TimeInForce
  | PlaceMarket nat Side int nat
  | Cancel nat
  | Replace nat int int nat

definition perform :: "(nat \<Rightarrow> nat) \<Rightarrow> Request \<Rightarrow> Engine \<Rightarrow> Engine option" where
  "perform clk rq e =
     (case rq of
        PlaceLimit cid s p q now tf \<Rightarrow> placeLimit clk cid s p q now tf e
      | PlaceMarket cid s q now \<Rightarrow> placeMarket clk cid s q now e
      | Cancel cid \<Rightarrow> map_option snd (cancel cid e)
      | Replace cid p q now \<Rightarrow> map_option snd (replace clk cid p q now e))"

fun run :: "(nat \<Rightarrow> nat) \<Rightarrow> Request list \<Rightarrow> Engine \<Rightarrow> Engine option" where
  "run clk [] e = Some e"
| "run clk (rq # rqs) e = perform clk rq e \<bind> run clk rqs"

subsection \<open>Notions of the specification\<close>

text \<open>
  The indices of the non-empty levels of one side; the price/time order of the resting
  orders of one side (best level first, each ring from head to tail); equality of two
  engine states up to the time-in-force recorded in the pool; and replace as the
  specification words it: cancel, then a new limit order with the side and the
  time-in-force the order had before it was cancelled.
\<close>

definition nonempty_levels :: "RingLevel list \<Rightarrow> nat set" where
  "nonempty_levels lv = {i. i < length lv \<and> \<not> RingLevel_empty (lv ! i)}"

definition book_order :: "Side \<Rightarrow> RingLevel list \<Rightarrow> nat list" where
  "book_order s lv = concat (map ring_list (if s = BUY then rev lv else lv))"

definition same_up_to_tif :: "Engine \<Rightarrow> Engine \<Rightarrow> bool" where
  "same_up_to_tif e1 e2 \<longleftrightarrow>
     book e1 = book e2 \<and> trades e1 = trades e2 \<and> clientToEngine e1 = clientToEngine e2 \<and>
     nextClientId e1 = nextClientId e2 \<and> freeList (pool e1) = freeList (pool e2) \<and>
     map (\<lambda>x. x\<lparr>tif := GFD\<rparr>) (slots (pool e1)) = map (\<lambda>x. x\<lparr>tif := GFD\<rparr>) (slots (pool e2))"

definition replace_spec ::
    "(nat \<Rightarrow> nat) \<Rightarrow> nat \<Rightarrow> int \<Rightarrow> int \<Rightarrow> nat \<Rightarrow> Engine \<Rightarrow> (bool \<times> Engine) option" where
  "replace_spec clk cid newPriceIdx newQty now e =
     (case clientToEngine e cid of
        None \<Rightarrow> Some (False, e)
      | Some eid \<Rightarrow> do {
          old \<leftarrow> get (pool e) eid;
          if \<not> active old then Some (False, e)
          else do {
            (r, e1) \<leftarrow> cancel cid e;
            e2 \<leftarrow> placeLimit clk cid (side old) newPriceIdx newQty now (tif old) e1;
            Some (True, e2)
          }
        })"


subsection \<open>Price/time priority as a specification\<close>

text \<open>
  The resting orders of one side as the specification sees them: in \<open>book_order\<close>, each
  with its client, its price index and its remaining quantity. A trade is seen as its
  taker, its maker, its price index and its quantity.
\<close>

definition resting :: "Engine \<Rightarrow> nat \<Rightarrow> nat \<times> int \<times> int" where
  "resting e m =
     (clientId (slots (pool e) ! m), priceIdx (slots (pool e) ! m), qty (slots (pool e) ! m))"

definition side_view :: "Side \<Rightarrow> Engine \<Rightarrow> (nat \<times> int \<times> int) list" where
  "side_view s e = map (resting e) (book_order s (levels s (book e)))"

definition fill_view :: "Trade \<Rightarrow> nat \<times> nat \<times> int \<times> int" where
  "fill_view tr = (takerClient tr, makerClient tr, trade_priceIdx tr, trade_qty tr)"

text \<open>
  A taker of side \<open>s\<close> with limit \<open>lim\<close> crosses a maker at the price index \<open>p\<close>: always for
  a market order (\<open>priced = False\<close>), and for a limit order when the maker's price is on or
  through the limit.
\<close>

definition crosses :: "bool \<Rightarrow> Side \<Rightarrow> int \<Rightarrow> int \<Rightarrow> bool" where
  "crosses priced s lim p = (\<not> priced \<or> (if s = BUY then p \<le> lim else lim \<le> p))"

text \<open>
  Matching by price/time priority, on the queue of the opposite side: a taker with \<open>q\<close>
  units left trades with the first maker of the queue as long as it has units left and
  crosses that maker; a maker that is filled leaves the queue, and a maker that is filled
  in part stays at its head. The result is the list of fills (maker, price, quantity), the
  queue that is left and the quantity the taker is left with.
\<close>

fun spec_fill ::
    "(int \<Rightarrow> bool) \<Rightarrow> int \<Rightarrow> (nat \<times> int \<times> int) list \<Rightarrow>
       (nat \<times> int \<times> int) list \<times> (nat \<times> int \<times> int) list \<times> int" where
  "spec_fill ok q [] = ([], [], q)"
| "spec_fill ok q ((c, p, m) # ms) =
     (if 0 < q \<and> ok p then
        (if m \<le> q then
           (case spec_fill ok (q - m) ms of (fs, ms', q') \<Rightarrow> ((c, p, m) # fs, ms', q'))
         else ([(c, p, q)], (c, p, m - q) # ms, 0))
      else ([], (c, p, m) # ms, q))"

text \<open>
  A residual that rests joins the queue of its own side behind every order at a price at
  least as good as its own, and ahead of the orders at worse prices.
\<close>

definition ahead :: "Side \<Rightarrow> int \<Rightarrow> nat \<times> int \<times> int \<Rightarrow> bool" where
  "ahead s p y = (case y of (c', p', m') \<Rightarrow> if s = BUY then p \<le> p' else p' \<le> p)"

definition spec_rest ::
    "Side \<Rightarrow> nat \<times> int \<times> int \<Rightarrow> (nat \<times> int \<times> int) list \<Rightarrow> (nat \<times> int \<times> int) list" where
  "spec_rest s x ms =
     takeWhile (ahead s (fst (snd x))) ms @ x # dropWhile (ahead s (fst (snd x))) ms"

text \<open>
  One placing request on the two queues (bids, asks): the taker is matched against the
  queue of the opposite side, and the residual of a limit order rests on its own side; the
  residual of a market order is dropped. The result is the fills as trades are seen, the
  two queues, and the residual that had to rest.
\<close>

definition spec_place ::
    "Request \<Rightarrow> (nat \<times> int \<times> int) list \<times> (nat \<times> int \<times> int) list \<Rightarrow>
       (nat \<times> nat \<times> int \<times> int) list \<times>
       ((nat \<times> int \<times> int) list \<times> (nat \<times> int \<times> int) list) \<times> int" where
  "spec_place rq bk =
     (case bk of (bq, aq) \<Rightarrow>
        (case rq of
           PlaceLimit cid s p q now tf \<Rightarrow>
             (case spec_fill (crosses True s p) q (if s = BUY then aq else bq) of
                (fs, opp, q') \<Rightarrow>
                  (map (\<lambda>(c, p', m). (cid, c, p', m)) fs,
                   (if s = BUY
                    then ((if 0 < q' then spec_rest BUY (cid, p, q') bq else bq), opp)
                    else (opp, (if 0 < q' then spec_rest SELL (cid, p, q') aq else aq))),
                   q'))
         | PlaceMarket cid s q now \<Rightarrow>
             (case spec_fill (crosses False s (-1)) q (if s = BUY then aq else bq) of
                (fs, opp, q') \<Rightarrow>
                  (map (\<lambda>(c, p', m). (cid, c, p', m)) fs,
                   (if s = BUY then (bq, opp) else (opp, aq)),
                   0))
         | Cancel cid \<Rightarrow> ([], (bq, aq), 0)
         | Replace cid p q now \<Rightarrow> ([], (bq, aq), 0)))"

text \<open>
  A list of placing requests, one after the other: all the fills, the two queues at the
  end, and whether no request left a residual to rest.
\<close>

fun spec_run ::
    "Request list \<Rightarrow> (nat \<times> int \<times> int) list \<times> (nat \<times> int \<times> int) list \<Rightarrow>
       (nat \<times> nat \<times> int \<times> int) list \<times>
       ((nat \<times> int \<times> int) list \<times> (nat \<times> int \<times> int) list) \<times> bool" where
  "spec_run [] bk = ([], bk, True)"
| "spec_run (rq # rqs) bk =
     (case spec_place rq bk of
        (fs, bk1, r) \<Rightarrow>
          (case spec_run rqs bk1 of
             (fs2, bk2, full) \<Rightarrow> (fs @ fs2, bk2, r \<le> 0 \<and> full)))"

text \<open>The requests of such a list: good-for-day limit orders and market orders.\<close>

definition is_place :: "Request \<Rightarrow> bool" where
  "is_place rq =
     (case rq of
        PlaceLimit cid s p q now tf \<Rightarrow> tf = GFD
      | PlaceMarket cid s q now \<Rightarrow> True
      | Cancel cid \<Rightarrow> False
      | Replace cid p q now \<Rightarrow> False)"

subsection \<open>Concrete sessions\<close>

text \<open>
  Scenario 5 of the specification: three asks are preloaded, then a market buy of 8
  sweeps them. \<open>demo_asks\<close> is the book after the preload.
\<close>

definition preload_asks :: "Request list" where
  "preload_asks =
     [PlaceLimit 1 SELL 5000 2 0 GFD, PlaceLimit 2 SELL 5001 3 0 GFD, PlaceLimit 3 SELL 5002 5 0 GFD]"

definition demo_asks :: Engine where
  "demo_asks = the (run clk0 preload_asks Engine_init)"

definition market_buy_8 :: Order where
  "market_buy_8 = Order_default\<lparr>clientId := 40, side := BUY, otype := MARKET, priceIdx := -1, qty := 8,
     ts := 0\<rparr>"


text \<open>
  A longer session on the initial engine: the three asks, three bids below them, the
  market buy of 8, a cancel of the best bid and a replace of the next one.
\<close>

definition demo_session :: "Request list" where
  "demo_session =
     preload_asks @
     [PlaceLimit 10 BUY 4999 1 0 GFD, PlaceLimit 11 BUY 4998 4 0 GFD, PlaceLimit 12 BUY 4997 6 0 GFD,
      PlaceMarket 40 BUY 8 0, Cancel 10, Replace 11 4996 2 0]"


text \<open>
  Two price levels on the ask side. The clients 1, 3 and 2 place sells, in this order, at
  5000, 5001 and 5000, and the clients 4 and 5 place bids at 4990 and 4995; then client 40
  buys 2 at the limit 5000, client 41 buys 4 at the market and client 42 buys 3 at the
  limit 5001. \<open>big_buy\<close> is a limit buy of 10 at 5000 by client 50.
\<close>

definition preload_levels :: "Request list" where
  "preload_levels =
     [PlaceLimit 1 SELL 5000 2 0 GFD, PlaceLimit 3 SELL 5001 5 0 GFD, PlaceLimit 2 SELL 5000 3 0 GFD,
      PlaceLimit 4 BUY 4990 1 0 GFD, PlaceLimit 5 BUY 4995 1 0 GFD]"

definition demo_levels :: Engine where
  "demo_levels = the (run clk0 preload_levels Engine_init)"

definition three_buyers :: "Request list" where
  "three_buyers = [PlaceLimit 40 BUY 5000 2 0 GFD, PlaceMarket 41 BUY 4 0, PlaceLimit 42 BUY 5001 3 0 GFD]"

definition big_buy :: Order where
  "big_buy = Order_default\<lparr>clientId := 50, side := BUY, otype := LIMIT, priceIdx := 5000, qty := 10,
     ts := 0\<rparr>"


text \<open>
  Scenarios 3 and 4 of the specification, and an order priced outside the book: one sell
  order of client 1 for 3 units rests at price index \<open>p\<close>; then client 20 buys 10 at
  5002 immediate-or-cancel, client 30 buys 10 at 5003 fill-or-kill, and client 2 buys 3 at
  the price index 20001, one past the last level.
\<close>

definition resting_sell :: "int \<Rightarrow> Engine" where
  "resting_sell p = the (placeLimit clk0 1 SELL p 3 0 GFD Engine_init)"

definition ioc_result :: Engine where
  "ioc_result = the (placeLimit clk0 20 BUY 5002 10 0 IOC (resting_sell 5002))"

definition fok_result :: Engine where
  "fok_result = the (placeLimit clk0 30 BUY 5003 10 0 FOK (resting_sell 5003))"

definition invalid_result :: Engine where
  "invalid_result = the (placeLimit clk0 2 BUY 20001 3 0 GFD (resting_sell 5000))"


text \<open>
  Two sells of \<open>2^62\<close> units each at the level 5000 of the initial engine: their sum is
  \<open>2^63\<close>, one more than the greatest \<open>i64\<close>.
\<close>

definition overflow_session :: "Request list" where
  "overflow_session =
     [PlaceLimit 1 SELL 5000 4611686018427387904 0 GFD,
      PlaceLimit 2 SELL 5000 4611686018427387904 0 GFD]"

definition overflow_result :: Engine where
  "overflow_result = the (run clk0 overflow_session Engine_init)"

section \<open>Evaluation\<close>

lemma butlast_upt_eq: "butlast [m..<n] = [m..<n - 1]"
  by (cases n) simp_all

text \<open>
  The equations that evaluate the engine on a concrete state. The pool and the levels of
  \<open>Engine_init\<close> stay symbolic (\<open>replicate\<close>, \<open>[0..<n]\<close>).
\<close>

lemmas engine_eval = butlast_upt_eq wrap_i64_def
  placeLimit_def placeMarket_def matchAndAdd_def matchMarket_def sweep.simps sweepCond_def
  matchStep_def cancel_def replace_def cancelScan.simps cancelShift.simps
  Engine_init_def Engine_new_def OrderPool_init_def OrderBook_init_def RingLevel_init_def
  PRICE_LEVELS_def ORDER_POOL_CAPACITY_def RING_CAPACITY_PER_LEVEL_def
  Order_default_def allocate_def free_def get_def at_def put_def at_int_def put_int_def
  push_def pop_front_def front_def RingLevel_empty_def RingLevel_full_def
  updateBestAfterAdd_def updateBestAfterRemove_def scanUp.simps scanDown.simps
  levels_def best_def set_levels_def opposite_def emitTrade_def Let_def
  last_map map_butlast[symmetric]

section \<open>The ring buffer\<close>

text \<open>
  A ring whose cursors are in range holds \<open>ring_count\<close> entries; \<open>push\<close> appends to
  \<open>ring_list\<close> and \<open>pop_front\<close> removes its head.
\<close>

lemma wrap_i64_idem [simp]: "wrap_i64 (wrap_i64 x) = wrap_i64 x"
  by (simp add: wrap_i64_def)

lemma wrap_i64_add_left [simp]: "wrap_i64 (wrap_i64 x + y) = wrap_i64 (x + y)"
proof -
  have "(wrap_i64 x + y + 9223372036854775808) mod 18446744073709551616
          = ((x + 9223372036854775808) mod 18446744073709551616 + y) mod 18446744073709551616"
    by (simp add: wrap_i64_def)
  also have "\<dots> = (x + 9223372036854775808 + y) mod 18446744073709551616"
    by (rule mod_add_left_eq)
  finally show ?thesis by (simp add: wrap_i64_def add.assoc add.commute[of y])
qed

lemma wrap_i64_diff_left [simp]: "wrap_i64 (wrap_i64 x - y) = wrap_i64 (x - y)"
  using wrap_i64_add_left[of x "- y"] by simp

lemma wrap_i64_in_range:
  "- 9223372036854775808 \<le> x \<Longrightarrow> x < 9223372036854775808 \<Longrightarrow> wrap_i64 x = x"
  by (simp add: wrap_i64_def)

lemma wrap_i64_0 [simp]: "wrap_i64 0 = 0"
  by (simp add: wrap_i64_def)

lemma mod_lt2: "x < 2 * n \<Longrightarrow> (x::nat) mod n = (if x < n then x else x - n)"
  by (simp add: mod_if)

lemma ring_count_lt: "ring_ok l \<Longrightarrow> ring_count l < length (data l)"
  unfolding ring_ok_def ring_count_def by (intro mod_less_divisor) linarith

lemma ring_count_eq:
  "ring_ok l \<Longrightarrow> ring_count l =
     (if head l \<le> tail l then tail l - head l else tail l + length (data l) - head l)"
  unfolding ring_ok_def ring_count_def by (subst mod_lt2) auto

lemma ring_pos:
  "h < n \<Longrightarrow> k < n \<Longrightarrow> (h + k) mod n = (if h + k < n then h + k else h + k - (n::nat))"
  by (subst mod_lt2) auto

lemma ring_count_0_iff: "ring_ok l \<Longrightarrow> ring_count l = 0 \<longleftrightarrow> head l = tail l"
  by (auto simp: ring_count_eq) (auto simp: ring_ok_def)

lemma length_ring_list [simp]: "length (ring_list l) = ring_count l"
  by (simp add: ring_list_def)

lemma ring_empty_iff: "ring_ok l \<Longrightarrow> RingLevel_empty l \<longleftrightarrow> ring_list l = []"
  using ring_count_0_iff[of l] by (simp add: RingLevel_empty_def ring_list_def)

lemma ring_list_nth: "k < ring_count l \<Longrightarrow> ring_list l ! k = data l ! ((head l + k) mod length (data l))"
  by (simp add: ring_list_def)

lemma ring_front: "ring_ok l \<Longrightarrow> \<not> RingLevel_empty l \<Longrightarrow> front l = Some (hd (ring_list l))"
proof -
  assume ok: "ring_ok l" and ne: "\<not> RingLevel_empty l"
  then have c: "0 < ring_count l" using ring_count_0_iff[of l] by (simp add: RingLevel_empty_def)
  then have "ring_list l \<noteq> []" by (metis length_ring_list length_greater_0_conv)
  then have "hd (ring_list l) = ring_list l ! 0" by (rule hd_conv_nth)
  also have "\<dots> = data l ! head l" using c ok by (simp add: ring_list_nth ring_ok_def)
  finally show ?thesis using ok by (simp add: front_def at_def ring_ok_def)
qed

lemma ring_tail_pos: "ring_ok l \<Longrightarrow> (head l + ring_count l) mod length (data l) = tail l"
  by (auto simp: ring_count_eq ring_count_lt ring_pos) (auto simp: ring_ok_def)

lemma ring_pop:
  assumes "ring_ok l" "pop_front q l = Some l'"
  shows "ring_ok l' \<and> ring_list l' = tl (ring_list l) \<and> totalQty l' = wrap_i64 (totalQty l - q)
         \<and> length (data l') = length (data l)"
proof -
  let ?n = "length (data l)"
  from assms have ne: "head l \<noteq> tail l" and n0: "0 < ?n" and h: "head l < ?n" and t: "tail l < ?n"
    and d': "data l' = (data l)[head l := UINT64_MAX]" and h': "head l' = Suc (head l) mod ?n"
    and t': "tail l' = tail l" and q': "totalQty l' = wrap_i64 (totalQty l - q)"
    by (auto simp: pop_front_def RingLevel_empty_def put_def ring_ok_def split: if_splits)
  have ok: "ring_ok l'" using h t n0 by (simp add: d' h' t' ring_ok_def)
  have c0: "0 < ring_count l" using ring_count_0_iff[OF assms(1)] ne by simp
  have c: "ring_count l' = ring_count l - 1"
    using h t ne by (auto simp: ring_count_eq[OF ok] ring_count_eq[OF assms(1)] d' h' t' mod_Suc)
  have clt: "ring_count l < ?n" using assms(1) by (rule ring_count_lt)
  have "ring_list l' = tl (ring_list l)"
  proof (rule nth_equalityI)
    show "length (ring_list l') = length (tl (ring_list l))" using c by simp
  next
    fix k assume "k < length (ring_list l')"
    then have k: "k < ring_count l - 1" and k': "k < ring_count l'" using c by simp_all
    have pos: "(Suc (head l) mod ?n + k) mod ?n = (head l + Suc k) mod ?n"
      by (simp add: mod_add_left_eq)
    have neq: "(head l + Suc k) mod ?n \<noteq> head l"
      using h k clt by (subst ring_pos) auto
    have "ring_list l' ! k = (data l)[head l := UINT64_MAX] ! ((head l + Suc k) mod ?n)"
      unfolding ring_list_nth[OF k'] d' h' length_list_update pos ..
    also have "\<dots> = data l ! ((head l + Suc k) mod ?n)"
      using neq by (simp del: add_Suc_right)
    also have "\<dots> = tl (ring_list l) ! k"
      using k by (simp add: nth_tl ring_list_nth)
    finally show "ring_list l' ! k = tl (ring_list l) ! k" .
  qed
  with ok show ?thesis by (simp add: d' q')
qed

lemma ring_pop_total: "ring_ok l \<Longrightarrow> \<not> RingLevel_empty l \<Longrightarrow> \<exists>l'. pop_front q l = Some l'"
  by (auto simp: pop_front_def put_def ring_ok_def)

lemma ring_push:
  assumes "ring_ok l" "push eid q l = Some l'"
  shows "ring_ok l' \<and> ring_list l' = ring_list l @ [eid] \<and> totalQty l' = wrap_i64 (totalQty l + q)
         \<and> length (data l') = length (data l)"
proof -
  let ?n = "length (data l)"
  from assms have nf: "Suc (tail l) mod ?n \<noteq> head l" and n0: "0 < ?n" and h: "head l < ?n" and t: "tail l < ?n"
    and d': "data l' = (data l)[tail l := eid]" and h': "head l' = head l"
    and t': "tail l' = Suc (tail l) mod ?n" and q': "totalQty l' = wrap_i64 (totalQty l + q)"
    by (auto simp: push_def RingLevel_full_def put_def ring_ok_def bind_eq_Some_conv split: if_splits)
  have ok: "ring_ok l'" using h t n0 by (simp add: d' h' t' ring_ok_def)
  have c: "ring_count l' = Suc (ring_count l)"
    using h t nf by (auto simp: ring_count_eq[OF ok] ring_count_eq[OF assms(1)] d' h' t' mod_Suc split: if_splits)
  have clt: "ring_count l' < ?n" using ring_count_lt[OF ok] by (simp add: d')
  have "ring_list l' = ring_list l @ [eid]"
  proof (rule nth_equalityI)
    show "length (ring_list l') = length (ring_list l @ [eid])" using c by simp
  next
    fix k assume "k < length (ring_list l')"
    then have k: "k \<le> ring_count l" and k': "k < ring_count l'" using c by simp_all
    have eq: "ring_list l' ! k = (data l)[tail l := eid] ! ((head l + k) mod ?n)"
      unfolding ring_list_nth[OF k'] d' h' length_list_update ..
    show "ring_list l' ! k = (ring_list l @ [eid]) ! k"
    proof (cases "k = ring_count l")
      case True
      have "ring_list l' ! k = (data l)[tail l := eid] ! tail l"
        using eq ring_tail_pos[OF assms(1)] True by simp
      then show ?thesis
        using t True by (simp add: nth_append)
    next
      case False
      then have k2: "k < ring_count l" using k by simp
      have "(head l + k) mod ?n \<noteq> tail l"
        using h t k2 clt c by (subst ring_pos) (auto simp: ring_count_eq[OF assms(1)] split: if_splits)
      then show ?thesis using k2 by (simp add: eq ring_list_nth nth_append)
    qed
  qed
  with ok show ?thesis by (simp add: d' q')
qed

lemma ring_push_total:
  "ring_ok l \<Longrightarrow> Suc (ring_count l) < length (data l) \<Longrightarrow> \<exists>l'. push eid q l = Some l'"
  by (auto simp: push_def RingLevel_full_def put_def ring_count_eq mod_Suc split: if_splits)
     (auto simp: ring_ok_def)

lemma ring_list_totalQty [simp]: "ring_list (l\<lparr>totalQty := x\<rparr>) = ring_list l"
  by (simp add: ring_list_def ring_count_def)

lemma ring_ok_totalQty [simp]: "ring_ok (l\<lparr>totalQty := x\<rparr>) = ring_ok l"
  by (simp add: ring_ok_def)

lemma RingLevel_empty_totalQty [simp]: "RingLevel_empty (l\<lparr>totalQty := x\<rparr>) = RingLevel_empty l"
  by (simp add: RingLevel_empty_def)

subsection \<open>The scan of cancel\<close>

lemma ring_pos_inj:
  "h < n \<Longrightarrow> a < n \<Longrightarrow> b < n \<Longrightarrow> (h + a) mod n = (h + b) mod (n::nat) \<longleftrightarrow> a = b"
  by (auto simp: ring_pos split: if_splits)

lemma ring_dist:
  "h < n \<Longrightarrow> j \<le> m \<Longrightarrow> m < n \<Longrightarrow> ((h + m) mod n + n - (h + j) mod n) mod (n::nat) = m - j"
  by (subst mod_lt2) (auto simp: ring_pos split: if_splits)

lemma ring_pos_lt: "h < n \<Longrightarrow> (x::nat) mod n < n"
  by (cases n) simp_all

lemma ring_pos_add: "((h + j) mod n + i) mod n = (h + (j + i)) mod (n::nat)"
  by (simp add: mod_add_left_eq add.assoc)

text \<open>Every cursor below the ring size is the head plus an offset.\<close>

lemma ring_offset:
  assumes "h < n" "p < (n::nat)"
  shows "\<exists>j<n. p = (h + j) mod n"
proof (cases "h \<le> p")
  case True
  then show ?thesis using assms by (intro exI[of _ "p - h"]) (simp add: ring_pos)
next
  case False
  then show ?thesis using assms by (intro exI[of _ "p + n - h"]) (simp add: ring_pos)
qed

lemma cancelScan_spec_aux:
  assumes "cancelScan dat tp eid pos = Some r"
  shows "\<forall>h j m. h < length dat \<longrightarrow> j \<le> m \<longrightarrow> m < length dat \<longrightarrow> pos = (h + j) mod length dat \<longrightarrow>
           tp = (h + m) mod length dat \<longrightarrow>
           (\<exists>k. j \<le> k \<and> k \<le> m \<and> (\<forall>i. j \<le> i \<and> i < k \<longrightarrow> dat ! ((h + i) mod length dat) \<noteq> eid) \<and>
              (if fst r then k < m \<and> snd r = (h + k) mod length dat \<and> dat ! ((h + k) mod length dat) = eid
               else k = m \<and> snd r = tp))"
  using assms
proof (induction rule: cancelScan.raw_induct[rotated 1, consumes 1])
  case (1 cancelScan dat tp eid pos r)
  show ?case
  proof (intro allI impI)
    fix h j m
    let ?n = "length dat"
    assume h: "h < ?n" and jm: "j \<le> m" and m: "m < ?n" and pos: "pos = (h + j) mod ?n"
      and tp: "tp = (h + m) mod ?n"
    show "\<exists>k. j \<le> k \<and> k \<le> m \<and> (\<forall>i. j \<le> i \<and> i < k \<longrightarrow> dat ! ((h + i) mod ?n) \<noteq> eid) \<and>
              (if fst r then k < m \<and> snd r = (h + k) mod ?n \<and> dat ! ((h + k) mod ?n) = eid
               else k = m \<and> snd r = tp)"
    proof (cases "pos = tp")
      case True
      then have "j = m" using h jm m pos tp by (simp add: ring_pos_inj)
      moreover from True 1(2) have "r = (False, pos)" by simp
      ultimately show ?thesis using True by (intro exI[of _ m]) auto
    next
      case False
      then have jlt: "j < m" using jm pos tp by (cases "j = m") auto
      from False 1(2) have px: "pos < ?n" by (auto simp: at_def split: if_splits)
      show ?thesis
      proof (cases "dat ! pos = eid")
        case True
        with False 1(2) px have "r = (True, pos)" by (simp add: at_def)
        then show ?thesis using True jlt pos by (intro exI[of _ j]) auto
      next
        case ne: False
        with False 1(2) px have rec: "cancelScan dat tp eid ((pos + 1) mod ?n) = Some r"
          by (auto simp: at_def split: if_splits)
        have p1: "(pos + 1) mod ?n = (h + Suc j) mod ?n"
          unfolding pos by (simp add: mod_Suc_eq)
        have sj: "Suc j \<le> m" using jlt by simp
        from 1(1)[OF rec, rule_format, OF h sj m p1 tp]
        obtain k where k: "Suc j \<le> k" "k \<le> m"
            "\<forall>i. Suc j \<le> i \<and> i < k \<longrightarrow> dat ! ((h + i) mod ?n) \<noteq> eid"
            "if fst r then k < m \<and> snd r = (h + k) mod ?n \<and> dat ! ((h + k) mod ?n) = eid
               else k = m \<and> snd r = tp"
          by blast
        have "\<forall>i. j \<le> i \<and> i < k \<longrightarrow> dat ! ((h + i) mod ?n) \<noteq> eid"
        proof (intro allI impI)
          fix i assume i: "j \<le> i \<and> i < k"
          show "dat ! ((h + i) mod ?n) \<noteq> eid"
          proof (cases "i = j")
            case True
            then show ?thesis using ne pos by simp
          next
            case False
            then have "Suc j \<le> i \<and> i < k" using i by simp
            then show ?thesis using k(3) by blast
          qed
        qed
        with k show ?thesis by (intro exI[of _ k]) auto
      qed
    qed
  qed
qed

lemma remove1_first_index:
  "j < length xs \<Longrightarrow> xs ! j = x \<Longrightarrow> (\<forall>i<j. xs ! i \<noteq> x) \<Longrightarrow>
     remove1 x xs = take j xs @ drop (Suc j) xs"
proof (induction xs arbitrary: j)
  case Nil
  then show ?case by simp
next
  case (Cons y ys)
  show ?case
  proof (cases j)
    case 0
    with Cons.prems show ?thesis by simp
  next
    case (Suc j')
    with Cons.prems have "y \<noteq> x" by auto
    moreover have "remove1 x ys = take j' ys @ drop (Suc j') ys"
      using Cons.prems Suc by (intro Cons.IH) auto
    ultimately show ?thesis using Suc by simp
  qed
qed

lemma cancelScan_ring:
  assumes ok: "ring_ok l" and sc: "cancelScan (data l) (tail l) eid (head l) = Some (found, pos)"
  shows "if found then (\<exists>k<ring_count l. pos = (head l + k) mod length (data l) \<and> ring_list l ! k = eid \<and>
                          (\<forall>i<k. ring_list l ! i \<noteq> eid))
         else eid \<notin> set (ring_list l)"
proof -
  let ?n = "length (data l)"
  have h: "head l < ?n" and c: "ring_count l < ?n" using ok ring_count_lt[OF ok] by (auto simp: ring_ok_def)
  have "\<exists>k. 0 \<le> k \<and> k \<le> ring_count l \<and>
          (\<forall>i. 0 \<le> i \<and> i < k \<longrightarrow> data l ! ((head l + i) mod ?n) \<noteq> eid) \<and>
          (if fst (found, pos) then k < ring_count l \<and> snd (found, pos) = (head l + k) mod ?n \<and>
                data l ! ((head l + k) mod ?n) = eid
           else k = ring_count l \<and> snd (found, pos) = tail l)"
    by (rule cancelScan_spec_aux[OF sc, rule_format, of "head l" 0 "ring_count l"])
       (use h c ring_tail_pos[OF ok] in simp_all)
  then obtain k where k: "k \<le> ring_count l" "\<forall>i. i < k \<longrightarrow> data l ! ((head l + i) mod ?n) \<noteq> eid"
     "found \<Longrightarrow> k < ring_count l \<and> pos = (head l + k) mod ?n \<and> data l ! ((head l + k) mod ?n) = eid"
     "\<not> found \<Longrightarrow> k = ring_count l \<and> pos = tail l"
    by (cases found) auto
  show ?thesis
  proof (cases found)
    case True
    with k show ?thesis by (auto simp: ring_list_nth intro!: exI[of _ k])
  next
    case False
    with k have "\<forall>i<ring_count l. ring_list l ! i \<noteq> eid" by (auto simp: ring_list_nth)
    then have "eid \<notin> set (ring_list l)" by (auto simp: in_set_conv_nth)
    with False show ?thesis by simp
  qed
qed

subsection \<open>The shift of cancel\<close>

lemma cancelShift_spec_aux:
  assumes "cancelShift dat lastp cur = Some dat'"
  shows "\<forall>h j m. h < length dat \<longrightarrow> j \<le> m \<longrightarrow> m < length dat \<longrightarrow> cur = (h + j) mod length dat \<longrightarrow>
           lastp = (h + m) mod length dat \<longrightarrow>
           length dat' = length dat \<and>
           (\<forall>i. j \<le> i \<and> i < m \<longrightarrow> dat' ! ((h + i) mod length dat) = dat ! ((h + Suc i) mod length dat)) \<and>
           (\<forall>q<length dat. (\<forall>i. j \<le> i \<and> i < m \<longrightarrow> q \<noteq> (h + i) mod length dat) \<longrightarrow> dat' ! q = dat ! q)"
  using assms
proof (induction rule: cancelShift.raw_induct[rotated 1, consumes 1])
  case (1 cancelShift dat lastp cur dat')
  show ?case
  proof (intro allI impI)
    fix h j m
    let ?n = "length dat"
    assume h: "h < ?n" and jm: "j \<le> m" and m: "m < ?n" and cur: "cur = (h + j) mod ?n"
      and lastp: "lastp = (h + m) mod ?n"
    have jn: "j < ?n" using jm m by simp
    show "length dat' = ?n \<and>
           (\<forall>i. j \<le> i \<and> i < m \<longrightarrow> dat' ! ((h + i) mod ?n) = dat ! ((h + Suc i) mod ?n)) \<and>
           (\<forall>q<?n. (\<forall>i. j \<le> i \<and> i < m \<longrightarrow> q \<noteq> (h + i) mod ?n) \<longrightarrow> dat' ! q = dat ! q)"
    proof (cases "cur = lastp")
      case True
      then have "j = m" using h jm m cur lastp by (simp add: ring_pos_inj)
      moreover from True 1(2) have "dat' = dat" by simp
      ultimately show ?thesis by simp
    next
      case False
      then have jlt: "j < m" using jm cur lastp by (cases "j = m") auto
      have p1: "Suc cur mod ?n = (h + Suc j) mod ?n"
        unfolding cur by (simp add: mod_Suc_eq)
      have cn: "cur < ?n" unfolding cur using h by (rule ring_pos_lt)
      let ?x = "dat ! ((h + Suc j) mod ?n)"
      let ?d1 = "dat[cur := ?x]"
      from False 1(2) cn
      have "cancelShift (dat[cur := dat ! (Suc cur mod ?n)]) lastp (Suc cur mod ?n) = Some dat'"
        by (auto simp: at_def put_def split: if_splits)
      then have rec: "cancelShift ?d1 lastp ((h + Suc j) mod ?n) = Some dat'"
        unfolding p1 .
      have len1: "length ?d1 = ?n" by simp
      have sj: "Suc j \<le> m" using jlt by simp
      have IH: "length dat' = ?n \<and>
           (\<forall>i. Suc j \<le> i \<and> i < m \<longrightarrow> dat' ! ((h + i) mod ?n) = ?d1 ! ((h + Suc i) mod ?n)) \<and>
           (\<forall>q<?n. (\<forall>i. Suc j \<le> i \<and> i < m \<longrightarrow> q \<noteq> (h + i) mod ?n) \<longrightarrow> dat' ! q = ?d1 ! q)"
        using 1(1)[OF rec, rule_format, of h "Suc j" m] h sj m lastp by simp
      have A: "dat' ! ((h + i) mod ?n) = dat ! ((h + Suc i) mod ?n)" if i: "j \<le> i \<and> i < m" for i
      proof (cases "i = j")
        case True
        have "\<forall>i'. Suc j \<le> i' \<and> i' < m \<longrightarrow> cur \<noteq> (h + i') mod ?n"
          unfolding cur using h m jn by (auto simp: ring_pos_inj)
        with IH cn have "dat' ! cur = ?d1 ! cur" by blast
        then show ?thesis using True cn cur by simp
      next
        case False
        then have i': "Suc j \<le> i \<and> i < m" using i by simp
        then have "dat' ! ((h + i) mod ?n) = ?d1 ! ((h + Suc i) mod ?n)" using IH by blast
        moreover have "(h + Suc i) mod ?n \<noteq> cur"
          unfolding cur using h m jn i' by (subst ring_pos_inj) auto
        ultimately show ?thesis by (simp del: add_Suc_right)
      qed
      have B: "dat' ! q = dat ! q" if q: "q < ?n" and nq: "\<forall>i. j \<le> i \<and> i < m \<longrightarrow> q \<noteq> (h + i) mod ?n" for q
      proof -
        have "\<forall>i. Suc j \<le> i \<and> i < m \<longrightarrow> q \<noteq> (h + i) mod ?n" using nq by auto
        with IH q have "dat' ! q = ?d1 ! q" by blast
        moreover have "q \<noteq> cur" using nq jlt cur by auto
        ultimately show ?thesis by simp
      qed
      from IH A B show ?thesis by blast
    qed
  qed
qed

lemma ring_prev_tail:
  assumes ok: "ring_ok l" and c: "0 < ring_count l"
  shows "(tail l + length (data l) - 1) mod length (data l) = (head l + (ring_count l - 1)) mod length (data l)"
proof -
  let ?n = "length (data l)"
  have h: "head l < ?n" and t: "tail l < ?n" using ok by (auto simp: ring_ok_def)
  have clt: "ring_count l < ?n" using ok by (rule ring_count_lt)
  show ?thesis
    using h t c clt unfolding ring_count_eq[OF ok]
    by (subst mod_lt2, simp, subst ring_pos) (auto split: if_splits)
qed

lemma cancel_remove_ring:
  assumes ok: "ring_ok l" and k: "k < ring_count l"
    and sh: "cancelShift (data l) ((tail l + length (data l) - 1) mod length (data l))
               ((head l + k) mod length (data l)) = Some dat'"
    and l': "l' = l\<lparr>data := dat', tail := (tail l + length (data l) - 1) mod length (data l), totalQty := q\<rparr>"
  shows "ring_ok l' \<and> ring_list l' = take k (ring_list l) @ drop (Suc k) (ring_list l)"
proof -
  let ?n = "length (data l)"
  let ?c = "ring_count l"
  have h: "head l < ?n" and t: "tail l < ?n" using ok by (auto simp: ring_ok_def)
  have clt: "?c < ?n" using ok by (rule ring_count_lt)
  have c0: "0 < ?c" using k by simp
  have lastp: "(tail l + ?n - 1) mod ?n = (head l + (?c - 1)) mod ?n"
    using ok c0 by (rule ring_prev_tail)
  have km: "k \<le> ?c - 1" and mn: "?c - 1 < ?n" using k clt by simp_all
  from cancelShift_spec_aux[OF sh, rule_format, OF h km mn refl lastp]
  have len: "length dat' = ?n"
    and A: "\<And>i. k \<le> i \<Longrightarrow> i < ?c - 1 \<Longrightarrow> dat' ! ((head l + i) mod ?n) = data l ! ((head l + Suc i) mod ?n)"
    and B: "\<And>q. q < ?n \<Longrightarrow> (\<forall>i. k \<le> i \<and> i < ?c - 1 \<longrightarrow> q \<noteq> (head l + i) mod ?n) \<Longrightarrow> dat' ! q = data l ! q"
    by blast+
  have ok': "ring_ok l'" using h len ring_pos_lt[OF h] by (simp add: l' ring_ok_def)
  have f': "data l' = dat'" "head l' = head l" "tail l' = (head l + (?c - 1)) mod ?n"
    using lastp by (simp_all add: l')
  have "ring_count l' = ((head l + (?c - 1)) mod ?n + ?n - (head l + 0) mod ?n) mod ?n"
    unfolding ring_count_def[of l'] f' len using h by simp
  also have "\<dots> = ?c - 1 - 0"
    using h mn by (intro ring_dist) simp_all
  finally have c': "ring_count l' = ?c - 1" by simp
  have "ring_list l' = take k (ring_list l) @ drop (Suc k) (ring_list l)"
  proof (rule nth_equalityI)
    show "length (ring_list l') = length (take k (ring_list l) @ drop (Suc k) (ring_list l))"
      using c' k by simp
  next
    fix i assume "i < length (ring_list l')"
    then have i: "i < ?c - 1" and i': "i < ring_count l'" using c' by simp_all
    have eq: "ring_list l' ! i = dat' ! ((head l + i) mod ?n)"
      unfolding ring_list_nth[OF i'] f' len ..
    show "ring_list l' ! i = (take k (ring_list l) @ drop (Suc k) (ring_list l)) ! i"
    proof (cases "i < k")
      case True
      have "\<forall>i'. k \<le> i' \<and> i' < ?c - 1 \<longrightarrow> (head l + i) mod ?n \<noteq> (head l + i') mod ?n"
        using h True clt i by (auto simp: ring_pos_inj)
      then have "dat' ! ((head l + i) mod ?n) = data l ! ((head l + i) mod ?n)"
        using B[of "(head l + i) mod ?n"] ring_pos_lt[OF h] by simp
      then show ?thesis using True k i by (simp add: eq nth_append ring_list_nth)
    next
      case False
      then have "dat' ! ((head l + i) mod ?n) = data l ! ((head l + Suc i) mod ?n)"
        using A[of i] i by simp
      then show ?thesis using False k i by (simp add: eq nth_append ring_list_nth min_def)
    qed
  qed
  with ok' show ?thesis by simp
qed

section \<open>Accessors and scans\<close>

subsection \<open>Accessors\<close>

lemma opposite_simps [simp]: "opposite BUY = SELL" "opposite SELL = BUY" "opposite s \<noteq> s"
  "s \<noteq> opposite s" "opposite (opposite s) = s"
  by (cases s; simp add: opposite_def)+

lemma Side_neq: "s' \<noteq> s \<longleftrightarrow> s' = opposite s"
  by (cases s; cases s'; simp)

lemma levels_set_levels [simp]:
  "levels s' (set_levels s lv b) = (if s' = s then lv else levels s' b)"
  by (cases s; cases s'; simp add: levels_def set_levels_def)

lemma best_set_levels [simp]: "best s' (set_levels s lv b) = best s' b"
  by (simp add: best_def set_levels_def)

lemma nlevels_set_levels [simp]: "nlevels (set_levels s lv b) = nlevels b"
  by (simp add: set_levels_def)

lemma bests_set_levels [simp]:
  "bestBid (set_levels s lv b) = bestBid b" "bestAsk (set_levels s lv b) = bestAsk b"
  by (simp_all add: set_levels_def)

lemma at_int_Some: "at_int xs i = Some x \<longleftrightarrow> 0 \<le> i \<and> nat i < length xs \<and> x = xs ! nat i"
  by (auto simp: at_int_def at_def)

lemma put_int_Some: "put_int xs i v = Some ys \<longleftrightarrow> 0 \<le> i \<and> nat i < length xs \<and> ys = xs[nat i := v]"
  by (auto simp: put_int_def put_def)

lemma put_Some: "put xs i v = Some ys \<longleftrightarrow> i < length xs \<and> ys = xs[i := v]"
  by (auto simp: put_def)

subsection \<open>The scans of updateBestAfterRemove\<close>

lemma scanDown_spec:
  "scanDown lv i = Some j \<Longrightarrow>
     (j = -1 \<or> (0 \<le> j \<and> j \<le> i \<and> nat j < length lv \<and> \<not> RingLevel_empty (lv ! nat j))) \<and>
     (\<forall>k. j < k \<and> k \<le> i \<longrightarrow> RingLevel_empty (lv ! nat k))"
proof (induction lv i rule: scanDown.induct)
  case (1 lv i)
  show ?case
  proof (cases "0 \<le> i")
    case False
    with "1.prems" have "j = -1" by (simp add: scanDown.simps)
    with False show ?thesis by auto
  next
    case True
    with "1.prems" have ir: "nat i < length lv"
      by (auto simp: scanDown.simps[of lv i] at_int_Some split: option.splits)
    show ?thesis
    proof (cases "RingLevel_empty (lv ! nat i)")
      case False
      with True ir "1.prems" have "j = i"
        by (auto simp: scanDown.simps[of lv i] at_int_def at_def)
      with True ir False show ?thesis by auto
    next
      case emp: True
      with True ir "1.prems" have rec: "scanDown lv (i - 1) = Some j"
        by (auto simp: scanDown.simps[of lv i] at_int_def at_def)
      have at: "at_int lv i = Some (lv ! nat i)" using True ir by (simp add: at_int_Some)
      from "1.IH"[OF True at _ rec] emp
      have IH: "(j = -1 \<or> (0 \<le> j \<and> j \<le> i - 1 \<and> nat j < length lv \<and> \<not> RingLevel_empty (lv ! nat j))) \<and>
                (\<forall>k. j < k \<and> k \<le> i - 1 \<longrightarrow> RingLevel_empty (lv ! nat k))" by simp
      have "RingLevel_empty (lv ! nat k)" if "j < k \<and> k \<le> i" for k
        using that IH emp by (cases "k = i") auto
      with IH show ?thesis by auto
    qed
  qed
qed

lemma scanDown_total: "i < int (length lv) \<Longrightarrow> \<exists>j. scanDown lv i = Some j"
proof (induction lv i rule: scanDown.induct)
  case (1 lv i)
  show ?case
  proof (cases "0 \<le> i")
    case False
    then show ?thesis by (simp add: scanDown.simps)
  next
    case True
    then have at: "at_int lv i = Some (lv ! nat i)" using "1.prems" by (simp add: at_int_Some)
    show ?thesis
    proof (cases "RingLevel_empty (lv ! nat i)")
      case False
      then show ?thesis using True at by (simp add: scanDown.simps[of lv i])
    next
      case emp: True
      have "\<exists>j. scanDown lv (i - 1) = Some j"
        using "1.IH"[OF True at] emp "1.prems" by simp
      then show ?thesis using True at emp by (simp add: scanDown.simps[of lv i])
    qed
  qed
qed

lemma scanUp_spec:
  "scanUp lv n i = Some j \<Longrightarrow> 0 \<le> i \<Longrightarrow>
     (j = -1 \<or> (i \<le> j \<and> j < n \<and> nat j < length lv \<and> \<not> RingLevel_empty (lv ! nat j))) \<and>
     (\<forall>k. i \<le> k \<and> k < n \<and> (j = -1 \<or> k < j) \<longrightarrow> RingLevel_empty (lv ! nat k))"
proof (induction lv n i rule: scanUp.induct)
  case (1 lv n i)
  show ?case
  proof (cases "i < n")
    case False
    with "1.prems" have "j = -1" by (simp add: scanUp.simps)
    with False show ?thesis by auto
  next
    case True
    with "1.prems" have ir: "nat i < length lv"
      by (auto simp: scanUp.simps[of lv n i] at_int_Some split: option.splits)
    show ?thesis
    proof (cases "RingLevel_empty (lv ! nat i)")
      case False
      with True ir "1.prems" have "j = i"
        by (auto simp: scanUp.simps[of lv n i] at_int_def at_def)
      with True ir False "1.prems"(2) show ?thesis by auto
    next
      case emp: True
      with True ir "1.prems" have rec: "scanUp lv n (i + 1) = Some j"
        by (auto simp: scanUp.simps[of lv n i] at_int_def at_def)
      have at: "at_int lv i = Some (lv ! nat i)" using "1.prems" ir by (simp add: at_int_Some)
      from "1.IH"[OF True at _ rec] emp "1.prems"
      have IH: "(j = -1 \<or> (i + 1 \<le> j \<and> j < n \<and> nat j < length lv \<and> \<not> RingLevel_empty (lv ! nat j))) \<and>
                (\<forall>k. i + 1 \<le> k \<and> k < n \<and> (j = -1 \<or> k < j) \<longrightarrow> RingLevel_empty (lv ! nat k))" by simp
      have "RingLevel_empty (lv ! nat k)" if "i \<le> k \<and> k < n \<and> (j = -1 \<or> k < j)" for k
        using that IH emp by (cases "k = i") auto
      with IH show ?thesis by auto
    qed
  qed
qed

lemma scanUp_total: "0 \<le> i \<Longrightarrow> n \<le> int (length lv) \<Longrightarrow> \<exists>j. scanUp lv n i = Some j"
proof (induction lv n i rule: scanUp.induct)
  case (1 lv n i)
  show ?case
  proof (cases "i < n")
    case False
    then show ?thesis by (simp add: scanUp.simps)
  next
    case True
    then have at: "at_int lv i = Some (lv ! nat i)" using "1.prems" by (simp add: at_int_Some)
    show ?thesis
    proof (cases "RingLevel_empty (lv ! nat i)")
      case False
      then show ?thesis using True at by (simp add: scanUp.simps[of lv n i])
    next
      case emp: True
      have "\<exists>j. scanUp lv n (i + 1) = Some j"
        using "1.IH"[OF True at] emp "1.prems" by simp
      then show ?thesis using True at emp by (simp add: scanUp.simps[of lv n i])
    qed
  qed
qed

subsection \<open>The best caches after a removal\<close>

lemma updateBest_frame:
  assumes "updateBestAfterRemove s idx b = Some b'"
  shows "levels s' b' = levels s' b" "nlevels b' = nlevels b"
    "best (opposite s) b' = best (opposite s) b" "best s b \<noteq> idx \<Longrightarrow> b' = b"
  using assms
  by (cases s; cases s'; auto simp: updateBestAfterRemove_def levels_def best_def bind_eq_Some_conv
        split: if_splits)+

lemma updateBest_spec:
  assumes u: "updateBestAfterRemove s idx b = Some b'"
    and n: "nlevels b = int (length (levels s b))" and i0: "0 \<le> idx" and bi: "best s b = idx"
  shows "(best s b' = -1 \<or>
           (0 \<le> best s b' \<and> best s b' < nlevels b \<and> \<not> better s (best s b') idx \<and>
            \<not> RingLevel_empty (levels s b ! nat (best s b')))) \<and>
         (\<forall>k. 0 \<le> k \<and> k < nlevels b \<and> \<not> better s k idx \<and> (best s b' = -1 \<or> better s k (best s b')) \<longrightarrow>
              RingLevel_empty (levels s b ! nat k))"
proof (cases s)
  case BUY
  with u bi obtain j where j: "scanDown (bids b) idx = Some j" and b': "b' = b\<lparr>bestBid := j\<rparr>"
    by (auto simp: updateBestAfterRemove_def best_def bind_eq_Some_conv)
  from scanDown_spec[OF j] n BUY
  show ?thesis by (auto simp: b' best_def levels_def better_def)
next
  case SELL
  with u bi obtain j where j: "scanUp (asks b) (nlevels b) idx = Some j" and b': "b' = b\<lparr>bestAsk := j\<rparr>"
    by (auto simp: updateBestAfterRemove_def best_def bind_eq_Some_conv)
  from scanUp_spec[OF j i0] n SELL i0
  show ?thesis by (auto simp: b' best_def levels_def better_def)
qed

lemma updateBest_total:
  assumes n: "nlevels b = int (length (levels s b))" and i0: "0 \<le> idx" and i1: "idx < nlevels b"
  shows "\<exists>b'. updateBestAfterRemove s idx b = Some b'"
proof (cases s)
  case BUY
  with n i1 have "idx < int (length (bids b))" by (simp add: levels_def)
  from scanDown_total[OF this] BUY show ?thesis
    by (auto simp: updateBestAfterRemove_def)
next
  case SELL
  with n have "nlevels b \<le> int (length (asks b))" by (simp add: levels_def)
  from scanUp_total[OF i0 this] SELL show ?thesis
    by (auto simp: updateBestAfterRemove_def)
qed

subsection \<open>One iteration of the sweep, case by case\<close>

lemma matchStepE:
  assumes "matchStep clk (t, e) = Some (t', e')"
  obtains
    (stale) pl b' where
      "at_int (levels (opposite (side t)) (book e)) (best (opposite (side t)) (book e)) = Some pl"
      "RingLevel_empty pl"
      "updateBestAfterRemove (opposite (side t)) (best (opposite (side t)) (book e)) (book e) = Some b'"
      "t' = t" "e' = e\<lparr>book := b'\<rparr>"
  | (filled) pl m mk pl' p' lv' b2 where
      "at_int (levels (opposite (side t)) (book e)) (best (opposite (side t)) (book e)) = Some pl"
      "\<not> RingLevel_empty pl" "front pl = Some m" "get (pool e) m = Some mk" "qty mk \<le> qty t"
      "pop_front 0 (pl\<lparr>totalQty := wrap_i64 (totalQty pl - qty mk)\<rparr>) = Some pl'"
      "free m ((pool e)\<lparr>slots := (slots (pool e))[m := mk\<lparr>qty := 0\<rparr>]\<rparr>) = Some p'"
      "put_int (levels (opposite (side t)) (book e)) (best (opposite (side t)) (book e)) pl' = Some lv'"
      "(if RingLevel_empty pl'
        then updateBestAfterRemove (opposite (side t)) (best (opposite (side t)) (book e))
               (set_levels (opposite (side t)) lv' (book e))
        else Some (set_levels (opposite (side t)) lv' (book e))) = Some b2"
      "t' = t\<lparr>qty := qty t - qty mk\<rparr>"
      "e' = (emitTrade clk t mk (qty mk) (priceIdx mk) e)
              \<lparr>pool := p', book := b2, clientToEngine := (clientToEngine e)(clientId mk := None)\<rparr>"
  | (partial) pl m mk lv' where
      "at_int (levels (opposite (side t)) (book e)) (best (opposite (side t)) (book e)) = Some pl"
      "\<not> RingLevel_empty pl" "front pl = Some m" "get (pool e) m = Some mk" "qty t < qty mk"
      "put_int (levels (opposite (side t)) (book e)) (best (opposite (side t)) (book e))
         (pl\<lparr>totalQty := wrap_i64 (totalQty pl - qty t)\<rparr>) = Some lv'"
      "t' = t\<lparr>qty := 0\<rparr>"
      "e' = (emitTrade clk t mk (qty t) (priceIdx mk) e)
              \<lparr>pool := (pool e)\<lparr>slots := (slots (pool e))[m := mk\<lparr>qty := qty mk - qty t\<rparr>]\<rparr>,
               book := set_levels (opposite (side t)) lv' (book e)\<rparr>"
proof -
  from assms obtain pl where
    pl: "at_int (levels (opposite (side t)) (book e)) (best (opposite (side t)) (book e)) = Some pl"
    by (auto simp: matchStep_def Let_def bind_eq_Some_conv)
  show thesis
  proof (cases "RingLevel_empty pl")
    case True
    with assms pl obtain b' where
      "updateBestAfterRemove (opposite (side t)) (best (opposite (side t)) (book e)) (book e) = Some b'"
      "t' = t" "e' = e\<lparr>book := b'\<rparr>"
      by (auto simp: matchStep_def Let_def bind_eq_Some_conv)
    with pl True show thesis by (rule stale)
  next
    case False
    with assms pl obtain m mk where m: "front pl = Some m" and mk: "get (pool e) m = Some mk"
      by (auto simp: matchStep_def Let_def bind_eq_Some_conv)
    show thesis
    proof (cases "qty mk \<le> qty t")
      case True
      then have [simp]: "min (qty mk) (qty t) = qty mk" by simp
      from assms pl False m mk True obtain pl' p' lv' b2 where
        "pop_front 0 (pl\<lparr>totalQty := wrap_i64 (totalQty pl - qty mk)\<rparr>) = Some pl'"
        "free m ((pool e)\<lparr>slots := (slots (pool e))[m := mk\<lparr>qty := 0\<rparr>]\<rparr>) = Some p'"
        "put_int (levels (opposite (side t)) (book e)) (best (opposite (side t)) (book e)) pl' = Some lv'"
        "(if RingLevel_empty pl'
          then updateBestAfterRemove (opposite (side t)) (best (opposite (side t)) (book e))
                 (set_levels (opposite (side t)) lv' (book e))
          else Some (set_levels (opposite (side t)) lv' (book e))) = Some b2"
        "t' = t\<lparr>qty := qty t - qty mk\<rparr>"
        "e' = (emitTrade clk t mk (qty mk) (priceIdx mk) e)
                \<lparr>pool := p', book := b2, clientToEngine := (clientToEngine e)(clientId mk := None)\<rparr>"
        by (auto simp: matchStep_def Let_def bind_eq_Some_conv)
      with pl False m mk True show thesis by (rule filled)
    next
      case lt: False
      then have [simp]: "min (qty mk) (qty t) = qty t" by simp
      from lt have lt': "qty t < qty mk" by simp
      from assms pl False m mk lt obtain lv' where
        "put_int (levels (opposite (side t)) (book e)) (best (opposite (side t)) (book e))
           (pl\<lparr>totalQty := wrap_i64 (totalQty pl - qty t)\<rparr>) = Some lv'"
        "t' = t\<lparr>qty := 0\<rparr>"
        "e' = (emitTrade clk t mk (qty t) (priceIdx mk) e)
                \<lparr>pool := (pool e)\<lparr>slots := (slots (pool e))[m := mk\<lparr>qty := qty mk - qty t\<rparr>]\<rparr>,
                 book := set_levels (opposite (side t)) lv' (book e)\<rparr>"
        by (auto simp: matchStep_def Let_def bind_eq_Some_conv emitTrade_def)
      with pl False m mk lt' show thesis by (rule partial)
    qed
  qed
qed

section \<open>Pool and level invariants\<close>

lemma free_Some:
  "free m p = Some p' \<longleftrightarrow>
     m < length (slots p) \<and>
     p' = \<lparr>slots = (slots p)[m := (slots p ! m)\<lparr>active := False, qty := 0\<rparr>],
           freeList = freeList p @ [m]\<rparr>"
  by (auto simp: free_def at_def bind_eq_Some_conv)

lemma get_Some: "get p m = Some mk \<longleftrightarrow> m < length (slots p) \<and> mk = slots p ! m"
  by (auto simp: get_def at_def)

lemma upd_nth_notin: "m \<notin> A \<Longrightarrow> x \<in> A \<Longrightarrow> sl[m := v] ! x = sl ! x"
  by (cases "m = x") simp_all

lemma sum_list_qty_cong:
  "\<forall>x\<in>set xs. f x = g x \<Longrightarrow> (\<Sum>x\<leftarrow>xs. (f x :: int)) = (\<Sum>x\<leftarrow>xs. g x)"
  by (induction xs) simp_all

lemma level_inv_cong:
  assumes "level_inv sl s i l" "length sl' = length sl" "\<forall>x\<in>set (ring_list l). sl' ! x = sl ! x"
  shows "level_inv sl' s i l"
proof -
  have "(\<Sum>x\<leftarrow>ring_list l. qty (sl' ! x)) = (\<Sum>x\<leftarrow>ring_list l. qty (sl ! x))"
    using assms(3) by (intro sum_list_qty_cong) simp
  with assms show ?thesis by (auto simp: level_inv_def)
qed

lemma level_inv_upd:
  "level_inv sl s i l \<Longrightarrow> m \<notin> set (ring_list l) \<Longrightarrow> level_inv (sl[m := v]) s i l"
  by (erule level_inv_cong) (auto simp: upd_nth_notin)

lemma side_inv_upd:
  "side_inv sl s lv \<Longrightarrow> \<forall>i<length lv. m \<notin> set (ring_list (lv ! i)) \<Longrightarrow> side_inv (sl[m := v]) s lv"
  by (auto simp: side_inv_def intro: level_inv_upd)

lemma side_inv_mem:
  "side_inv sl s lv \<Longrightarrow> i < length lv \<Longrightarrow> x \<in> set (ring_list (lv ! i)) \<Longrightarrow>
     x < length sl \<and> active (sl ! x) \<and> side (sl ! x) = s \<and> priceIdx (sl ! x) = int i \<and> 0 < qty (sl ! x)"
  by (auto simp: side_inv_def level_inv_def)

lemma side_inv_other:
  "side_inv sl s lv \<Longrightarrow> side (sl ! m) \<noteq> s \<Longrightarrow> side_inv (sl[m := v]) s lv"
  by (rule side_inv_upd) (auto dest: side_inv_mem)

lemma side_inv_inactive:
  "side_inv sl s lv \<Longrightarrow> \<not> active (sl ! m) \<Longrightarrow> side_inv (sl[m := v]) s lv"
  by (rule side_inv_upd) (auto dest: side_inv_mem)

lemma side_inv_same:
  assumes "side_inv sl s lv" "priceIdx (sl ! m) = int i" "level_inv (sl[m := v]) s i l'" "i < length lv"
  shows "side_inv (sl[m := v]) s (lv[i := l'])"
  unfolding side_inv_def
proof (intro allI impI)
  fix k assume k: "k < length (lv[i := l'])"
  show "level_inv (sl[m := v]) s k (lv[i := l'] ! k)"
  proof (cases "k = i")
    case True
    then show ?thesis using assms by simp
  next
    case False
    have "m \<notin> set (ring_list (lv ! k))"
      using side_inv_mem[OF assms(1), of k m] k False assms(2) by auto
    moreover have "level_inv sl s k (lv ! k)" using assms(1) k by (simp add: side_inv_def)
    ultimately show ?thesis using False by (simp add: level_inv_upd)
  qed
qed

lemma sum_list_hd_tl:
  "xs \<noteq> [] \<Longrightarrow> (\<Sum>x\<leftarrow>xs. f x) = f (hd xs) + (\<Sum>x\<leftarrow>tl xs. (f x :: int))"
  by (cases xs) simp_all

text \<open>The head maker of a level is fully consumed and popped.\<close>

lemma level_inv_pop:
  assumes li: "level_inv sl s i pl" and ne: "\<not> RingLevel_empty pl"
    and pop: "pop_front 0 (pl\<lparr>totalQty := wrap_i64 (totalQty pl - qty (sl ! hd (ring_list pl)))\<rparr>) = Some pl'"
  shows "level_inv (sl[hd (ring_list pl) := v]) s i pl'" "ring_list pl' = tl (ring_list pl)"
proof -
  let ?rl = "ring_list pl"
  let ?m = "hd ?rl"
  have ok: "ring_ok pl" and d: "distinct ?rl"
    and tq: "totalQty pl = wrap_i64 (\<Sum>x\<leftarrow>?rl. qty (sl ! x))" using li by (auto simp: level_inv_def)
  have rne: "?rl \<noteq> []" using ok ne by (simp add: ring_empty_iff)
  from ring_pop[OF _ pop] ok
  have ok': "ring_ok pl'" and rl': "ring_list pl' = tl ?rl"
    and tq': "totalQty pl' = wrap_i64 (totalQty pl - qty (sl ! ?m))" by simp_all
  have mtl: "?m \<notin> set (tl ?rl)" using d rne by (cases ?rl) auto
  have sub: "set (tl ?rl) \<subseteq> set ?rl" using rne by (cases ?rl) auto
  have "(\<Sum>x\<leftarrow>tl ?rl. qty (sl[?m := v] ! x)) = (\<Sum>x\<leftarrow>tl ?rl. qty (sl ! x))"
    using mtl by (intro sum_list_qty_cong) (simp add: upd_nth_notin)
  then have "wrap_i64 (\<Sum>x\<leftarrow>tl ?rl. qty (sl[?m := v] ! x)) = totalQty pl'"
    using tq tq' sum_list_hd_tl[OF rne, of "\<lambda>x. qty (sl ! x)"] by simp
  then have sum: "totalQty pl' = wrap_i64 (\<Sum>x\<leftarrow>ring_list pl'. qty (sl[?m := v] ! x))" by (simp add: rl')
  have "\<forall>x\<in>set (tl ?rl). x < length sl \<and> active (sl[?m := v] ! x) \<and> side (sl[?m := v] ! x) = s \<and>
          priceIdx (sl[?m := v] ! x) = int i \<and> 0 < qty (sl[?m := v] ! x)"
    using li sub mtl by (auto simp: level_inv_def upd_nth_notin)
  with ok' sum d show "level_inv (sl[?m := v]) s i pl'"
    by (simp add: level_inv_def rl' distinct_tl)
  show "ring_list pl' = tl ?rl" by (rule rl')
qed

text \<open>The head maker of a level is reduced by \<open>q\<close> and stays.\<close>

lemma level_inv_reduce:
  assumes li: "level_inv sl s i pl" and ne: "\<not> RingLevel_empty pl"
    and q: "q < qty (sl ! hd (ring_list pl))"
  shows "level_inv (sl[hd (ring_list pl) := (sl ! hd (ring_list pl))\<lparr>qty := qty (sl ! hd (ring_list pl)) - q\<rparr>])
           s i (pl\<lparr>totalQty := wrap_i64 (totalQty pl - q)\<rparr>)"
proof -
  let ?rl = "ring_list pl"
  let ?m = "hd ?rl"
  let ?sl' = "sl[?m := (sl ! ?m)\<lparr>qty := qty (sl ! ?m) - q\<rparr>]"
  have ok: "ring_ok pl" and d: "distinct ?rl"
    and tq: "totalQty pl = wrap_i64 (\<Sum>x\<leftarrow>?rl. qty (sl ! x))" using li by (auto simp: level_inv_def)
  have rne: "?rl \<noteq> []" using ok ne by (simp add: ring_empty_iff)
  have min: "?m \<in> set ?rl" using rne by simp
  then have ml: "?m < length sl" using li by (auto simp: level_inv_def)
  have mtl: "?m \<notin> set (tl ?rl)" using d rne by (cases ?rl) auto
  have "(\<Sum>x\<leftarrow>tl ?rl. qty (?sl' ! x)) = (\<Sum>x\<leftarrow>tl ?rl. qty (sl ! x))"
    using mtl by (intro sum_list_qty_cong) (simp add: upd_nth_notin)
  then have "(\<Sum>x\<leftarrow>?rl. qty (?sl' ! x)) = (\<Sum>x\<leftarrow>?rl. qty (sl ! x)) - q"
    using sum_list_hd_tl[OF rne, of "\<lambda>x. qty (sl ! x)"] sum_list_hd_tl[OF rne, of "\<lambda>x. qty (?sl' ! x)"] ml
    by simp
  then have sum: "wrap_i64 (totalQty pl - q) = wrap_i64 (\<Sum>x\<leftarrow>?rl. qty (?sl' ! x))" using tq by simp
  have "\<forall>x\<in>set ?rl. x < length sl \<and> active (?sl' ! x) \<and> side (?sl' ! x) = s \<and>
          priceIdx (?sl' ! x) = int i \<and> 0 < qty (?sl' ! x)"
  proof
    fix x assume x: "x \<in> set ?rl"
    then have px: "x < length sl \<and> active (sl ! x) \<and> side (sl ! x) = s \<and>
          priceIdx (sl ! x) = int i \<and> 0 < qty (sl ! x)" using li by (auto simp: level_inv_def)
    show "x < length sl \<and> active (?sl' ! x) \<and> side (?sl' ! x) = s \<and>
          priceIdx (?sl' ! x) = int i \<and> 0 < qty (?sl' ! x)"
      using px q ml by (cases "x = ?m") simp_all
  qed
  with ok sum d show ?thesis by (simp add: level_inv_def)
qed

lemma free_inv_notin: "free_inv p \<Longrightarrow> active (slots p ! m) \<Longrightarrow> m \<notin> set (freeList p)"
  by (auto simp: free_inv_def)

lemma free_inv_release:
  assumes "free_inv p" "m < length (slots p)" "active (slots p ! m)" "\<not> active v"
  shows "free_inv \<lparr>slots = (slots p)[m := v], freeList = freeList p @ [m]\<rparr>"
  using assms free_inv_notin[OF assms(1,3)]
  by (auto simp: free_inv_def upd_nth_notin[of m "set (freeList p)"])

lemma free_inv_keep:
  assumes "free_inv p" "active (slots p ! m)"
  shows "free_inv (p\<lparr>slots := (slots p)[m := v]\<rparr>)"
  using assms free_inv_notin[OF assms]
  by (auto simp: free_inv_def upd_nth_notin[of m "set (freeList p)"])

section \<open>One iteration of the sweep keeps the book well-formed\<close>

lemma book_wf_levels:
  "book_wf e \<Longrightarrow> nlevels (book e) = int (length (levels s (book e)))"
  "book_wf e \<Longrightarrow> side_inv (slots (pool e)) s (levels s (book e))"
  "book_wf e \<Longrightarrow> free_inv (pool e)"
  "book_wf e \<Longrightarrow> best_in_range s (book e)"
  by (simp_all add: book_wf_def)

lemma book_wf_level:
  "book_wf e \<Longrightarrow> i < length (levels s (book e)) \<Longrightarrow>
     level_inv (slots (pool e)) s i (levels s (book e) ! i)"
  by (simp add: book_wf_def side_inv_def)

lemma book_wfI:
  assumes "\<And>s. nlevels (book e) = int (length (levels s (book e)))"
    "\<And>s. side_inv (slots (pool e)) s (levels s (book e))"
    "free_inv (pool e)" "\<And>s. best_in_range s (book e)"
  shows "book_wf e"
  using assms by (simp add: book_wf_def)

text \<open>The head of a non-empty level under the invariant.\<close>

lemma level_head:
  assumes "level_inv sl s i pl" "\<not> RingLevel_empty pl"
  shows "front pl = Some (hd (ring_list pl))" "hd (ring_list pl) \<in> set (ring_list pl)"
    "hd (ring_list pl) < length sl" "active (sl ! hd (ring_list pl))"
    "side (sl ! hd (ring_list pl)) = s" "priceIdx (sl ! hd (ring_list pl)) = int i"
    "0 < qty (sl ! hd (ring_list pl))"
proof -
  have ok: "ring_ok pl" using assms(1) by (simp add: level_inv_def)
  then have ne: "ring_list pl \<noteq> []" using assms(2) by (simp add: ring_empty_iff)
  show "front pl = Some (hd (ring_list pl))" using ok assms(2) by (rule ring_front)
  show m: "hd (ring_list pl) \<in> set (ring_list pl)" using ne by simp
  with assms(1) show "hd (ring_list pl) < length sl" "active (sl ! hd (ring_list pl))"
    "side (sl ! hd (ring_list pl)) = s" "priceIdx (sl ! hd (ring_list pl)) = int i"
    "0 < qty (sl ! hd (ring_list pl))"
    by (auto simp: level_inv_def)
qed

lemma best_in_range_upd:
  assumes u: "updateBestAfterRemove s idx b = Some b'"
    and n: "\<And>s'. nlevels b = int (length (levels s' b))"
    and i0: "0 \<le> idx" and r: "\<And>s'. best_in_range s' b"
  shows "best_in_range s' b'"
proof (cases "best s b = idx")
  case False
  with updateBest_frame(4)[OF u] r show ?thesis by simp
next
  case True
  show ?thesis
  proof (cases "s' = s")
    case True
    with updateBest_spec[OF u n i0 \<open>best s b = idx\<close>] updateBest_frame(2)[OF u]
    show ?thesis by (auto simp: best_in_range_def)
  next
    case False
    then have "s' = opposite s" by (simp add: Side_neq)
    with updateBest_frame(2,3)[OF u] r[of s'] show ?thesis by (simp add: best_in_range_def)
  qed
qed

lemma matchStep_wf:
  assumes wf: "book_wf e" and step: "matchStep clk (t, e) = Some (t', e')"
  shows "book_wf e'"
  using step
proof (cases rule: matchStepE)
  case (stale pl b')
  let ?ms = "opposite (side t)"
  let ?bi = "best ?ms (book e)"
  from stale(1) have i0: "0 \<le> ?bi" by (simp add: at_int_Some)
  show ?thesis
  proof (rule book_wfI)
    fix s
    show "nlevels (book e') = int (length (levels s (book e')))"
      using updateBest_frame(1,2)[OF stale(3)] book_wf_levels(1)[OF wf] by (simp add: stale(5))
    show "side_inv (slots (pool e')) s (levels s (book e'))"
      using updateBest_frame(1)[OF stale(3)] book_wf_levels(2)[OF wf] by (simp add: stale(5))
    show "best_in_range s (book e')"
      using best_in_range_upd[OF stale(3) book_wf_levels(1)[OF wf] i0 book_wf_levels(4)[OF wf]]
      by (simp add: stale(5))
  next
    show "free_inv (pool e')" using book_wf_levels(3)[OF wf] by (simp add: stale(5))
  qed
next
  case (filled pl m mk pl' p' lv' b2)
  let ?ms = "opposite (side t)"
  let ?bi = "best ?ms (book e)"
  let ?lv = "levels ?ms (book e)"
  let ?sl = "slots (pool e)"
  let ?v = "mk\<lparr>active := False, qty := 0\<rparr>"
  from filled(1) have i0: "0 \<le> ?bi" and il: "nat ?bi < length ?lv" and pl: "pl = ?lv ! nat ?bi"
    by (simp_all add: at_int_Some)
  have li: "level_inv ?sl ?ms (nat ?bi) pl" using book_wf_level[OF wf il] pl by simp
  note hd = level_head[OF li filled(2)]
  from filled(3) hd(1) have m: "m = hd (ring_list pl)" by simp
  from filled(4) have mk: "mk = ?sl ! m" and ml: "m < length ?sl" by (simp_all add: get_Some)
  from filled(7) ml have p': "p' = \<lparr>slots = ?sl[m := ?v], freeList = freeList (pool e) @ [m]\<rparr>"
    by (simp add: free_Some)
  from filled(8) have lv': "lv' = ?lv[nat ?bi := pl']" by (simp add: put_int_Some)
  have pop: "pop_front 0 (pl\<lparr>totalQty := wrap_i64 (totalQty pl - qty (?sl ! hd (ring_list pl)))\<rparr>) = Some pl'"
    using filled(6) mk m by simp
  have li': "level_inv (?sl[m := ?v]) ?ms (nat ?bi) pl'"
    using level_inv_pop(1)[OF li filled(2) pop] m by simp
  let ?b1 = "set_levels ?ms lv' (book e)"
  have n1: "\<And>s. nlevels ?b1 = int (length (levels s ?b1))"
    using book_wf_levels(1)[OF wf] by (simp add: lv')
  have r1: "\<And>s. best_in_range s ?b1"
    using book_wf_levels(4)[OF wf] by (simp add: best_in_range_def)
  have fr: "levels s b2 = levels s ?b1 \<and> nlevels b2 = nlevels ?b1" for s
    using filled(9) updateBest_frame(1,2)[of ?ms ?bi ?b1 b2] by (auto split: if_splits)
  have pe: "pool e' = p'" and be: "book e' = b2" by (simp_all add: filled(11))
  show ?thesis
  proof (rule book_wfI)
    fix s
    show "nlevels (book e') = int (length (levels s (book e')))"
      using fr n1 by (simp add: be)
    show "side_inv (slots (pool e')) s (levels s (book e'))"
    proof (cases "s = ?ms")
      case True
      have "side_inv (?sl[m := ?v]) ?ms (?lv[nat ?bi := pl'])"
        using book_wf_levels(2)[OF wf] _ li' il
        by (rule side_inv_same) (use hd(6) m in simp)
      then show ?thesis using True fr by (simp add: pe be p' lv')
    next
      case False
      have "side_inv (?sl[m := ?v]) s (levels s (book e))"
        using book_wf_levels(2)[OF wf] by (rule side_inv_other) (use hd(5) m False in simp)
      then show ?thesis using False fr by (simp add: pe be p')
    qed
    show "best_in_range s (book e')"
    proof (cases "RingLevel_empty pl'")
      case True
      with filled(9) have "updateBestAfterRemove ?ms ?bi ?b1 = Some b2" by simp
      from best_in_range_upd[OF this n1 i0 r1] show ?thesis by (simp add: be)
    next
      case False
      with filled(9) r1 show ?thesis by (simp add: be)
    qed
  next
    have "free_inv \<lparr>slots = ?sl[m := ?v], freeList = freeList (pool e) @ [m]\<rparr>"
      using book_wf_levels(3)[OF wf] ml by (rule free_inv_release) (use hd(4) m in simp_all)
    then show "free_inv (pool e')" by (simp add: pe p')
  qed
next
  case (partial pl m mk lv')
  let ?ms = "opposite (side t)"
  let ?bi = "best ?ms (book e)"
  let ?lv = "levels ?ms (book e)"
  let ?sl = "slots (pool e)"
  let ?v = "mk\<lparr>qty := qty mk - qty t\<rparr>"
  let ?pl' = "pl\<lparr>totalQty := wrap_i64 (totalQty pl - qty t)\<rparr>"
  from partial(1) have i0: "0 \<le> ?bi" and il: "nat ?bi < length ?lv" and pl: "pl = ?lv ! nat ?bi"
    by (simp_all add: at_int_Some)
  have li: "level_inv ?sl ?ms (nat ?bi) pl" using book_wf_level[OF wf il] pl by simp
  note hd = level_head[OF li partial(2)]
  from partial(3) hd(1) have m: "m = hd (ring_list pl)" by simp
  from partial(4) have mk: "mk = ?sl ! m" and ml: "m < length ?sl" by (simp_all add: get_Some)
  from partial(6) have lv': "lv' = ?lv[nat ?bi := ?pl']" by (simp add: put_int_Some)
  have li': "level_inv (?sl[m := ?v]) ?ms (nat ?bi) ?pl'"
    using level_inv_reduce[OF li partial(2), of "qty t"] partial(5) m mk by simp
  have pe: "slots (pool e') = ?sl[m := ?v]" "freeList (pool e') = freeList (pool e)"
    and be: "book e' = set_levels ?ms lv' (book e)"
    by (simp_all add: partial(8))
  show ?thesis
  proof (rule book_wfI)
    fix s
    show "nlevels (book e') = int (length (levels s (book e')))"
      using book_wf_levels(1)[OF wf] by (simp add: be lv')
    show "side_inv (slots (pool e')) s (levels s (book e'))"
    proof (cases "s = ?ms")
      case True
      have "side_inv (?sl[m := ?v]) ?ms (?lv[nat ?bi := ?pl'])"
        using book_wf_levels(2)[OF wf] _ li' il
        by (rule side_inv_same) (use hd(6) m in simp)
      then show ?thesis using True by (simp add: pe be lv')
    next
      case False
      have "side_inv (?sl[m := ?v]) s (levels s (book e))"
        using book_wf_levels(2)[OF wf] by (rule side_inv_other) (use hd(5) m False in simp)
      then show ?thesis using False by (simp add: pe be)
    qed
    show "best_in_range s (book e')"
      using book_wf_levels(4)[OF wf] by (simp add: be best_in_range_def)
  next
    have "free_inv ((pool e)\<lparr>slots := ?sl[m := ?v]\<rparr>)"
      using book_wf_levels(3)[OF wf] by (rule free_inv_keep) (use hd(4) m in simp)
    then show "free_inv (pool e')" by (simp add: free_inv_def pe)
  qed
qed

section \<open>Progress of the sweep\<close>

lemma best_dist_set_levels [simp]: "best_dist s (set_levels s' lv b) = best_dist s b"
  by (simp add: best_dist_def)

lemma best_dist_upd:
  assumes u: "updateBestAfterRemove s idx b = Some b'"
    and n: "nlevels b = int (length (levels s b))"
    and i0: "0 \<le> idx" and i1: "idx < nlevels b" and bi: "best s b = idx"
  shows "best_dist s b' \<le> best_dist s b"
    and "RingLevel_empty (levels s b ! nat idx) \<Longrightarrow> best_dist s b' < best_dist s b"
proof -
  note sp = updateBest_spec[OF u n i0 bi]
  note nl = updateBest_frame(2)[OF u]
  show "best_dist s b' \<le> best_dist s b"
    using sp nl bi i0 i1 by (cases s) (auto simp: best_dist_def better_def)
  assume emp: "RingLevel_empty (levels s b ! nat idx)"
  have "best s b' \<noteq> idx" using sp emp i0 by auto
  then show "best_dist s b' < best_dist s b"
    using sp nl bi i0 i1 by (cases s) (auto simp: best_dist_def better_def)
qed

lemma matchStep_total:
  assumes wf: "book_wf e" and c: "best (opposite (side t)) (book e) \<noteq> -1"
  shows "\<exists>r. matchStep clk (t, e) = Some r"
proof -
  let ?ms = "opposite (side t)"
  let ?bi = "best ?ms (book e)"
  let ?lv = "levels ?ms (book e)"
  let ?sl = "slots (pool e)"
  let ?pl = "?lv ! nat ?bi"
  have n: "\<And>s. nlevels (book e) = int (length (levels s (book e)))" by (rule book_wf_levels(1)[OF wf])
  from book_wf_levels(4)[OF wf, of ?ms] c have i0: "0 \<le> ?bi" and i1: "?bi < nlevels (book e)"
    by (auto simp: best_in_range_def)
  then have il: "nat ?bi < length ?lv" using n[of ?ms] by simp
  have at: "at_int ?lv ?bi = Some ?pl" using i0 il by (simp add: at_int_Some)
  have li: "level_inv ?sl ?ms (nat ?bi) ?pl" by (rule book_wf_level[OF wf il])
  show ?thesis
  proof (cases "RingLevel_empty ?pl")
    case True
    from updateBest_total[OF n i0 i1] obtain b' where "updateBestAfterRemove ?ms ?bi (book e) = Some b'"
      by blast
    with at True show ?thesis by (simp add: matchStep_def Let_def)
  next
    case False
    note hd = level_head[OF li False]
    let ?m = "hd (ring_list ?pl)"
    let ?mk = "?sl ! ?m"
    have g: "get (pool e) ?m = Some ?mk" using hd(3) by (simp add: get_Some)
    have ok: "ring_ok ?pl" using li by (simp add: level_inv_def)
    show ?thesis
    proof (cases "qty ?mk \<le> qty t")
      case True
      then have mn: "min (qty ?mk) (qty t) = qty ?mk" by simp
      obtain pl' where pop: "pop_front 0 (?pl\<lparr>totalQty := wrap_i64 (totalQty ?pl - qty ?mk)\<rparr>) = Some pl'"
        using ring_pop_total[of "?pl\<lparr>totalQty := wrap_i64 (totalQty ?pl - qty ?mk)\<rparr>" 0] ok False by auto
      obtain p' where fr: "free ?m ((pool e)\<lparr>slots := ?sl[?m := ?mk\<lparr>qty := 0\<rparr>]\<rparr>) = Some p'"
        using hd(3) by (simp add: free_Some)
      have put: "put_int ?lv ?bi pl' = Some (?lv[nat ?bi := pl'])" using i0 il by (simp add: put_int_Some)
      let ?b1 = "set_levels ?ms (?lv[nat ?bi := pl']) (book e)"
      have "\<exists>b2. (if RingLevel_empty pl' then updateBestAfterRemove ?ms ?bi ?b1 else Some ?b1) = Some b2"
        using updateBest_total[of ?b1 ?ms ?bi] n[of ?ms] i0 i1 by simp
      then obtain b2 where
        "(if RingLevel_empty pl' then updateBestAfterRemove ?ms ?bi ?b1 else Some ?b1) = Some b2" by blast
      with at False hd(1) g mn pop fr put show ?thesis
        by (simp add: matchStep_def Let_def)
    next
      case lt: False
      then have mn: "min (qty ?mk) (qty t) = qty t" by simp
      have put: "put_int ?lv ?bi (?pl\<lparr>totalQty := wrap_i64 (totalQty ?pl - qty t)\<rparr>)
                   = Some (?lv[nat ?bi := ?pl\<lparr>totalQty := wrap_i64 (totalQty ?pl - qty t)\<rparr>])"
        using i0 il by (simp add: put_int_Some)
      from at False hd(1) g mn lt put show ?thesis
        by (simp add: matchStep_def Let_def)
    qed
  qed
qed

lemma matchStep_progress:
  assumes wf: "book_wf e" and q: "0 < qty t" and step: "matchStep clk (t, e) = Some (t', e')"
  shows "side t' = side t \<and> priceIdx t' = priceIdx t \<and>
         (qty t' < qty t \<and> best_dist (opposite (side t)) (book e') \<le> best_dist (opposite (side t)) (book e)
          \<or> qty t' = qty t \<and> best_dist (opposite (side t)) (book e') < best_dist (opposite (side t)) (book e))"
  using step
proof (cases rule: matchStepE)
  case (stale pl b')
  let ?ms = "opposite (side t)"
  let ?bi = "best ?ms (book e)"
  from stale(1) have i0: "0 \<le> ?bi" and il: "nat ?bi < length (levels ?ms (book e))"
    and pl: "pl = levels ?ms (book e) ! nat ?bi" by (simp_all add: at_int_Some)
  have i1: "?bi < nlevels (book e)" using il book_wf_levels(1)[OF wf, of ?ms] by simp
  from best_dist_upd(2)[OF stale(3) book_wf_levels(1)[OF wf] i0 i1 refl] stale(2) pl
  show ?thesis by (simp add: stale(4,5))
next
  case (filled pl m mk pl' p' lv' b2)
  let ?ms = "opposite (side t)"
  let ?bi = "best ?ms (book e)"
  let ?lv = "levels ?ms (book e)"
  from filled(1) have i0: "0 \<le> ?bi" and il: "nat ?bi < length ?lv" and pl: "pl = ?lv ! nat ?bi"
    by (simp_all add: at_int_Some)
  have i1: "?bi < nlevels (book e)" using il book_wf_levels(1)[OF wf, of ?ms] by simp
  have li: "level_inv (slots (pool e)) ?ms (nat ?bi) pl" using book_wf_level[OF wf il] pl by simp
  note hd = level_head[OF li filled(2)]
  from filled(3,4) hd(1,7) have mq: "0 < qty mk" by (simp add: get_Some)
  from filled(8) have lv': "lv' = ?lv[nat ?bi := pl']" by (simp add: put_int_Some)
  let ?b1 = "set_levels ?ms lv' (book e)"
  have "best_dist ?ms b2 \<le> best_dist ?ms (book e)"
  proof (cases "RingLevel_empty pl'")
    case True
    with filled(9) have u: "updateBestAfterRemove ?ms ?bi ?b1 = Some b2" by simp
    have "nlevels ?b1 = int (length (levels ?ms ?b1))"
      using book_wf_levels(1)[OF wf, of ?ms] by (simp add: lv')
    from best_dist_upd(1)[OF u this i0] i1 show ?thesis by simp
  next
    case False
    with filled(9) show ?thesis by auto
  qed
  with mq show ?thesis by (simp add: filled(10,11))
next
  case (partial pl m mk lv')
  with q show ?thesis by simp
qed

subsection \<open>Rules for the sweep loop\<close>

lemma sweep_rule:
  assumes run: "sweep clk priced te = Some r" and I0: "I te"
    and step: "\<And>te te'. I te \<Longrightarrow> sweepCond priced te \<Longrightarrow> matchStep clk te = Some te' \<Longrightarrow> I te'"
  shows "I r \<and> \<not> sweepCond priced r"
proof -
  have "clk = clk \<longrightarrow> priced = priced \<longrightarrow> I te \<longrightarrow> I r \<and> \<not> sweepCond priced r"
  proof (rule sweep.raw_induct[where P = "\<lambda>c p te r. c = clk \<longrightarrow> p = priced \<longrightarrow> I te \<longrightarrow> I r \<and> \<not> sweepCond priced r",
        OF _ run])
    fix sw c p te r
    assume ih: "\<And>c p te r. sw c p te = Some r \<Longrightarrow>
                  c = clk \<longrightarrow> p = priced \<longrightarrow> I te \<longrightarrow> I r \<and> \<not> sweepCond priced r"
      and body: "(if sweepCond p te then matchStep c te \<bind> sw c p else Some te) = Some r"
    show "c = clk \<longrightarrow> p = priced \<longrightarrow> I te \<longrightarrow> I r \<and> \<not> sweepCond priced r"
    proof (intro impI)
      assume c: "c = clk" and p: "p = priced" and I: "I te"
      show "I r \<and> \<not> sweepCond priced r"
      proof (cases "sweepCond priced te")
        case True
        with body c p obtain te' where st: "matchStep clk te = Some te'" and rec: "sw clk priced te' = Some r"
          by (auto simp: bind_eq_Some_conv)
        from step[OF I True st] ih[OF rec] show ?thesis by simp
      next
        case False
        with body p I show ?thesis by simp
      qed
    qed
  qed
  with I0 show ?thesis by simp
qed

lemma sweep_terminates:
  assumes I0: "I te"
    and step: "\<And>te. I te \<Longrightarrow> sweepCond priced te \<Longrightarrow>
                 \<exists>te'. matchStep clk te = Some te' \<and> I te' \<and> f te' < (f te :: nat)"
  shows "\<exists>r. sweep clk priced te = Some r"
  using I0
proof (induction "f te" arbitrary: te rule: less_induct)
  case less
  show ?case
  proof (cases "sweepCond priced te")
    case True
    from step[OF less.prems True] obtain te' where
      st: "matchStep clk te = Some te'" and I': "I te'" and lt: "f te' < f te" by blast
    from less.hyps[OF lt I'] obtain r where "sweep clk priced te' = Some r" by blast
    with True st show ?thesis by (subst sweep.simps) simp
  next
    case False
    then show ?thesis by (subst sweep.simps) simp
  qed
qed

section \<open>Exact best caches\<close>

lemma best_exact_cong:
  "levels s b' = levels s b \<Longrightarrow> best s b' = best s b \<Longrightarrow> best_exact s b' = best_exact s b"
  by (simp add: best_exact_def)

lemma best_exact_same_empty:
  assumes "best_exact s b" "best s b' = best s b" "length (levels s b') = length (levels s b)"
    "\<forall>i<length (levels s b). RingLevel_empty (levels s b' ! i) = RingLevel_empty (levels s b ! i)"
  shows "best_exact s b'"
  using assms by (auto simp: best_exact_def)

lemma uncrossed_best:
  "uncrossed b \<longleftrightarrow> (best BUY b \<noteq> -1 \<and> best SELL b \<noteq> -1 \<longrightarrow> best BUY b < best SELL b)"
  by (simp add: uncrossed_def best_def)

lemma engine_invD:
  "engine_inv e \<Longrightarrow> book_wf e" "engine_inv e \<Longrightarrow> best_exact s (book e)"
  "engine_inv e \<Longrightarrow> uncrossed (book e)"
  by (simp_all add: engine_inv_def)

text \<open>
  The best cache after the level at the old best has been emptied and
  \<open>updateBestAfterRemove\<close> has rescanned.
\<close>

lemma best_exact_rescan:
  assumes ex: "best_exact s b" and bi: "best s b = idx" and i0: "0 \<le> idx" and il: "nat idx < length (levels s b)"
    and n: "nlevels b = int (length (levels s b))"
    and emp: "RingLevel_empty pl'"
    and u: "updateBestAfterRemove s idx (set_levels s ((levels s b)[nat idx := pl']) b) = Some b2"
  shows "best_exact s b2" and "best s b2 = -1 \<or> (0 \<le> best s b2 \<and> \<not> better s (best s b2) idx)"
proof -
  let ?lv = "levels s b"
  let ?lv1 = "?lv[nat idx := pl']"
  let ?b1 = "set_levels s ?lv1 b"
  have n1: "nlevels ?b1 = int (length (levels s ?b1))" using n by simp
  have b1: "best s ?b1 = idx" using bi by simp
  note sp = updateBest_spec[OF u n1 i0 b1]
  have l2: "levels s b2 = ?lv1" using updateBest_frame(1)[OF u, of s] by simp
  have old: "RingLevel_empty (?lv1 ! i)" if "i < length ?lv" "better s (int i) idx" for i
  proof -
    have "i \<noteq> nat idx" using that(2) i0 by (auto simp: better_def split: if_splits)
    moreover have "RingLevel_empty (?lv ! i)" using ex bi that i0 il
      by (auto simp: best_exact_def split: if_splits)
    ultimately show ?thesis by simp
  qed
  have new: "RingLevel_empty (?lv1 ! i)"
    if "i < length ?lv" "\<not> better s (int i) idx" "best s b2 = -1 \<or> better s (int i) (best s b2)" for i
    using sp[THEN conjunct2, rule_format, of "int i"] that n by simp
  show "best s b2 = -1 \<or> (0 \<le> best s b2 \<and> \<not> better s (best s b2) idx)" using sp by auto
  show "best_exact s b2"
  proof (cases "best s b2 = -1")
    case True
    then show ?thesis using old new by (auto simp: best_exact_def l2)
  next
    case False
    with sp have r: "0 \<le> best s b2" "best s b2 < nlevels b" "\<not> better s (best s b2) idx"
      "\<not> RingLevel_empty (?lv1 ! nat (best s b2))" by auto
    have "RingLevel_empty (?lv1 ! i)" if "i < length ?lv" "better s (int i) (best s b2)" for i
      using old[OF that(1)] new[OF that(1)] that(2) by blast
    with False r n show ?thesis by (auto simp: best_exact_def l2)
  qed
qed

lemma matchStep_inv:
  assumes inv: "engine_inv e" and c: "best (opposite (side t)) (book e) \<noteq> -1"
    and step: "matchStep clk (t, e) = Some (t', e')"
  shows "engine_inv e'"
proof -
  let ?ms = "opposite (side t)"
  let ?bi = "best ?ms (book e)"
  let ?lv = "levels ?ms (book e)"
  note wf = engine_invD(1)[OF inv]
  have wf': "book_wf e'" using wf step by (rule matchStep_wf)
  have ex: "best_exact ?ms (book e)" by (rule engine_invD(2)[OF inv])
  from ex c have i0: "0 \<le> ?bi" and il: "nat ?bi < length ?lv"
    and ne: "\<not> RingLevel_empty (?lv ! nat ?bi)" by (auto simp: best_exact_def)
  have n: "nlevels (book e) = int (length ?lv)" by (rule book_wf_levels(1)[OF wf])
  have other: "best_exact (side t) (book e)" by (rule engine_invD(2)[OF inv])
  note unc = engine_invD(3)[OF inv, unfolded uncrossed_best]
  have goal: "engine_inv e'"
    if same: "best_exact ?ms (book e')"
      and oth: "levels (side t) (book e') = levels (side t) (book e)" "best (side t) (book e') = best (side t) (book e)"
      and mv: "best ?ms (book e') = ?bi \<or> best ?ms (book e') = -1
                 \<or> (0 \<le> best ?ms (book e') \<and> \<not> better ?ms (best ?ms (book e')) ?bi)"
  proof -
    have o': "best_exact (side t) (book e')" using other best_exact_cong[OF oth] by simp
    have all: "best_exact s (book e')" for s
    proof (cases "s = side t")
      case True
      with o' show ?thesis by simp
    next
      case False
      then have "s = ?ms" by (cases s; cases "side t"; simp)
      with same show ?thesis by simp
    qed
    have "uncrossed (book e')"
    proof (cases "side t")
      case BUY
      with unc mv oth(2) c show ?thesis
        unfolding uncrossed_best by (simp add: better_def) linarith
    next
      case SELL
      with unc mv oth(2) c show ?thesis
        unfolding uncrossed_best by (simp add: better_def) linarith
    qed
    with wf' all show ?thesis by (simp add: engine_inv_def)
  qed
  from step show ?thesis
  proof (cases rule: matchStepE)
    case (stale pl b')
    with ne show ?thesis by (simp add: at_int_Some)
  next
    case (filled pl m mk pl' p' lv' b2)
    from filled(8) have lv': "lv' = ?lv[nat ?bi := pl']" by (simp add: put_int_Some)
    let ?b1 = "set_levels ?ms lv' (book e)"
    have be: "book e' = b2" by (simp add: filled(11))
    show ?thesis
    proof (cases "RingLevel_empty pl'")
      case True
      with filled(9) have u: "updateBestAfterRemove ?ms ?bi (set_levels ?ms (?lv[nat ?bi := pl']) (book e)) = Some b2"
        by (simp add: lv')
      note rs = best_exact_rescan[OF ex refl i0 il n True u]
      have "levels (side t) b2 = levels (side t) (book e)" "best (side t) b2 = best (side t) (book e)"
        using updateBest_frame(1,3)[OF u] by simp_all
      with rs show ?thesis by (intro goal) (auto simp: be)
    next
      case False
      with filled(9) have b2: "b2 = ?b1" by simp
      have "best_exact ?ms ?b1"
        using ex by (rule best_exact_same_empty) (use False ne il in \<open>auto simp: lv' nth_list_update\<close>)
      then show ?thesis by (intro goal) (simp_all add: be b2)
    qed
  next
    case (partial pl m mk lv')
    from partial(6) have lv': "lv' = ?lv[nat ?bi := pl\<lparr>totalQty := wrap_i64 (totalQty pl - qty t)\<rparr>]"
      by (simp add: put_int_Some)
    from partial(1) have pl: "pl = ?lv ! nat ?bi" by (simp add: at_int_Some)
    have be: "book e' = set_levels ?ms lv' (book e)" by (simp add: partial(8))
    have "best_exact ?ms (set_levels ?ms lv' (book e))"
      using ex by (rule best_exact_same_empty) (use pl il in \<open>auto simp: lv' nth_list_update\<close>)
    then show ?thesis by (intro goal) (simp_all add: be)
  qed
qed

section \<open>Admission of the residual and the place operations\<close>

lemma side_inv_upd_level:
  assumes "side_inv sl s lv" "\<forall>k<length lv. k \<noteq> i \<longrightarrow> m \<notin> set (ring_list (lv ! k))"
    "level_inv (sl[m := v]) s i l'" "i < length lv"
  shows "side_inv (sl[m := v]) s (lv[i := l'])"
  unfolding side_inv_def
proof (intro allI impI)
  fix k assume k: "k < length (lv[i := l'])"
  show "level_inv (sl[m := v]) s k (lv[i := l'] ! k)"
  proof (cases "k = i")
    case True
    then show ?thesis using assms by simp
  next
    case False
    have "m \<notin> set (ring_list (lv ! k))" using assms(2) k False by simp
    moreover have "level_inv sl s k (lv ! k)" using assms(1) k by (simp add: side_inv_def)
    ultimately show ?thesis using False by (simp add: level_inv_upd)
  qed
qed

lemma allocate_Some:
  "allocate ord p = Some (eid, p') \<longleftrightarrow>
     freeList p \<noteq> [] \<and> eid = last (freeList p) \<and> eid < length (slots p) \<and>
     p' = \<lparr>slots = (slots p)[eid := ord\<lparr>engineId := eid, active := True\<rparr>],
           freeList = butlast (freeList p)\<rparr>"
  by (auto simp: allocate_def Let_def put_def bind_eq_Some_conv)

lemma free_inv_allocate:
  assumes "free_inv p" "freeList p \<noteq> []"
  shows "free_inv \<lparr>slots = (slots p)[last (freeList p) := v], freeList = butlast (freeList p)\<rparr>"
    and "\<not> active (slots p ! last (freeList p))"
proof -
  let ?fl = "freeList p"
  have d: "distinct ?fl" using assms(1) by (simp add: free_inv_def)
  have "?fl = butlast ?fl @ [last ?fl]" using assms(2) by simp
  then have "distinct (butlast ?fl @ [last ?fl])" using d by metis
  then have ni: "last ?fl \<notin> set (butlast ?fl)" by simp
  have sub: "x \<in> set ?fl" if "x \<in> set (butlast ?fl)" for x using that by (rule in_set_butlastD)
  show "\<not> active (slots p ! last ?fl)" using assms by (simp add: free_inv_def)
  show "free_inv \<lparr>slots = (slots p)[last ?fl := v], freeList = butlast ?fl\<rparr>"
    using assms(1) d sub ni
    by (auto simp: free_inv_def distinct_butlast upd_nth_notin[of "last ?fl" "set (butlast ?fl)"])
qed

lemma level_inv_push:
  assumes li: "level_inv sl s (nat p) lvl" and pu: "push eid q lvl = Some lvl'"
    and el: "eid < length sl" and ina: "\<not> active (sl ! eid)"
    and v: "active v" "side v = s" "priceIdx v = p" "qty v = q" and q: "0 < q" and p: "0 \<le> p"
  shows "level_inv (sl[eid := v]) s (nat p) lvl'"
proof -
  let ?rl = "ring_list lvl"
  have ok: "ring_ok lvl" and d: "distinct ?rl"
    and tq: "totalQty lvl = wrap_i64 (\<Sum>x\<leftarrow>?rl. qty (sl ! x))" using li by (auto simp: level_inv_def)
  from ring_push[OF ok pu]
  have ok': "ring_ok lvl'" and rl': "ring_list lvl' = ?rl @ [eid]"
    and tq': "totalQty lvl' = wrap_i64 (totalQty lvl + q)" by simp_all
  have ni: "eid \<notin> set ?rl" using li ina by (auto simp: level_inv_def)
  have "(\<Sum>x\<leftarrow>?rl. qty (sl[eid := v] ! x)) = (\<Sum>x\<leftarrow>?rl. qty (sl ! x))"
    using ni by (intro sum_list_qty_cong) (simp add: upd_nth_notin)
  then have sum: "totalQty lvl' = wrap_i64 (\<Sum>x\<leftarrow>ring_list lvl'. qty (sl[eid := v] ! x))"
    using tq tq' el v by (simp add: rl')
  have "\<forall>x\<in>set ?rl. x < length sl \<and> active (sl[eid := v] ! x) \<and> side (sl[eid := v] ! x) = s \<and>
          priceIdx (sl[eid := v] ! x) = int (nat p) \<and> 0 < qty (sl[eid := v] ! x)"
    using li ni by (auto simp: level_inv_def upd_nth_notin)
  with ok' sum d ni el v q p show ?thesis by (simp add: level_inv_def rl')
qed

lemma updateBestAfterAdd_frame [simp]:
  "levels s' (updateBestAfterAdd s p b) = levels s' b"
  "nlevels (updateBestAfterAdd s p b) = nlevels b"
  "best (opposite s) (updateBestAfterAdd s p b) = best (opposite s) b"
  by (cases s; cases s'; simp add: updateBestAfterAdd_def levels_def best_def)+

lemma updateBestAfterAdd_best:
  "0 \<le> p \<Longrightarrow> best s b = -1 \<or> 0 \<le> best s b \<Longrightarrow>
     best s (updateBestAfterAdd s p b) = (if best s b = -1 \<or> better s p (best s b) then p else best s b)"
  by (cases s) (auto simp: updateBestAfterAdd_def best_def better_def)

lemma matchStep_taker:
  "matchStep clk (t, e) = Some (t', e') \<Longrightarrow> t' = t\<lparr>qty := qty t'\<rparr>"
  by (erule matchStepE) simp_all

lemma sweep_inv:
  assumes run: "sweep clk priced (t, e) = Some (t', e')" and inv: "engine_inv e"
  shows "engine_inv e' \<and> t' = t\<lparr>qty := qty t'\<rparr> \<and> \<not> sweepCond priced (t', e')"
proof -
  let ?I = "\<lambda>te. engine_inv (snd te) \<and> fst te = t\<lparr>qty := qty (fst te)\<rparr>"
  have "?I (t', e') \<and> \<not> sweepCond priced (t', e')"
  proof (rule sweep_rule[OF run, where I = ?I])
    show "?I (t, e)" using inv by simp
  next
    fix te te' assume I: "?I te" and c: "sweepCond priced te" and st: "matchStep clk te = Some te'"
    obtain t1 e1 t2 e2 where te: "te = (t1, e1)" "te' = (t2, e2)" by (cases te; cases te') auto
    from c te have "best (opposite (side t1)) (book e1) \<noteq> -1" by (simp add: sweepCond_def Let_def)
    from matchStep_inv[OF _ this] I st te have "engine_inv e2" by simp
    moreover from matchStep_taker[of clk t1 e1 t2 e2] st te I have "t2 = t\<lparr>qty := qty t2\<rparr>"
      by (metis Order.surjective Order.update_convs(7) fst_conv)
    ultimately show "?I te'" using te by simp
  qed
  then show ?thesis by simp
qed

lemma admit_inv:
  assumes inv: "engine_inv e" and q: "0 < qty t" and nc: "\<not> sweepCond True (t, e)"
    and al: "allocate t (pool e) = Some (eid, p')"
    and at: "at_int (levels (side t) (book e)) (priceIdx t) = Some lvl"
    and pu: "push eid (qty t) lvl = Some lvl'"
    and put: "put_int (levels (side t) (book e)) (priceIdx t) lvl' = Some lv"
  shows "engine_inv (e\<lparr>pool := p',
            book := updateBestAfterAdd (side t) (priceIdx t) (set_levels (side t) lv (book e)),
            clientToEngine := c\<rparr>)"
    (is "engine_inv ?e'")
proof -
  let ?s = "side t"
  let ?p = "priceIdx t"
  let ?sl = "slots (pool e)"
  let ?lvs = "levels ?s (book e)"
  let ?v = "t\<lparr>engineId := eid, active := True\<rparr>"
  let ?b1 = "set_levels ?s lv (book e)"
  let ?b' = "updateBestAfterAdd ?s ?p ?b1"
  note wf = engine_invD(1)[OF inv]
  from al have fne: "freeList (pool e) \<noteq> []" and eid: "eid = last (freeList (pool e))"
    and el: "eid < length ?sl"
    and p': "p' = \<lparr>slots = ?sl[eid := ?v], freeList = butlast (freeList (pool e))\<rparr>"
    by (simp_all add: allocate_Some)
  from at have p0: "0 \<le> ?p" and pl: "nat ?p < length ?lvs" and lvl: "lvl = ?lvs ! nat ?p"
    by (simp_all add: at_int_Some)
  from put have lv: "lv = ?lvs[nat ?p := lvl']" by (simp add: put_int_Some)
  note fa1 = free_inv_allocate(1)[OF book_wf_levels(3)[OF wf] fne, where v = ?v]
  note fa2 = free_inv_allocate(2)[OF book_wf_levels(3)[OF wf] fne]
  have ina: "\<not> active (?sl ! eid)" using fa2 eid by simp
  have li: "level_inv ?sl ?s (nat ?p) lvl" using book_wf_level[OF wf pl] lvl by simp
  have li': "level_inv (?sl[eid := ?v]) ?s (nat ?p) lvl'"
    using li pu el ina by (rule level_inv_push) (use q p0 in simp_all)
  have ok: "ring_ok lvl" using li by (simp add: level_inv_def)
  have ne': "\<not> RingLevel_empty lvl'"
    using ring_push[OF ok pu] by (simp add: ring_empty_iff)
  have pe: "pool ?e' = p'" and be: "book ?e' = ?b'" by simp_all
  have wf': "book_wf ?e'"
  proof (rule book_wfI)
    fix s
    show "nlevels (book ?e') = int (length (levels s (book ?e')))"
      using book_wf_levels(1)[OF wf] by (simp add: lv)
    show "side_inv (slots (pool ?e')) s (levels s (book ?e'))"
    proof (cases "s = ?s")
      case True
      have "side_inv (?sl[eid := ?v]) ?s (?lvs[nat ?p := lvl'])"
        using book_wf_levels(2)[OF wf] _ li' pl
        by (rule side_inv_upd_level) (use ina side_inv_mem[OF book_wf_levels(2)[OF wf]] in blast)
      then show ?thesis using True by (simp add: p' lv)
    next
      case False
      have "side_inv (?sl[eid := ?v]) s (levels s (book e))"
        using book_wf_levels(2)[OF wf] ina by (rule side_inv_inactive)
      then show ?thesis using False by (simp add: p')
    qed
    have r: "best s (book e) = -1 \<or> 0 \<le> best s (book e) \<and> best s (book e) < nlevels (book e)"
      using book_wf_levels(4)[OF wf, of s] by (simp add: best_in_range_def)
    show "best_in_range s (book ?e')"
    proof (cases "s = ?s")
      case True
      have "best ?s ?b' = (if best ?s ?b1 = -1 \<or> better ?s ?p (best ?s ?b1) then ?p else best ?s ?b1)"
        using r True p0 by (intro updateBestAfterAdd_best) auto
      then show ?thesis using True r p0 pl book_wf_levels(1)[OF wf, of ?s]
        by (auto simp: best_in_range_def)
    next
      case False
      then have "s = opposite ?s" by (cases s; cases ?s; simp)
      then show ?thesis using r by (simp add: best_in_range_def)
    qed
  next
    show "free_inv (pool ?e')" using fa1 eid by (simp add: p')
  qed
  have exs: "best_exact ?s (book e)" and exo: "best_exact (opposite ?s) (book e)"
    by (rule engine_invD(2)[OF inv])+
  have r: "best ?s (book e) = -1 \<or> 0 \<le> best ?s (book e)"
    using book_wf_levels(4)[OF wf, of ?s] by (auto simp: best_in_range_def)
  have bs: "best ?s ?b' = (if best ?s (book e) = -1 \<or> better ?s ?p (best ?s (book e)) then ?p else best ?s (book e))"
    using updateBestAfterAdd_best[OF p0, of ?s ?b1] r by simp
  have emp: "RingLevel_empty (lv ! i) = RingLevel_empty (?lvs ! i)" if "i \<noteq> nat ?p" for i
    using that by (simp add: lv)
  have nep: "\<not> RingLevel_empty (lv ! nat ?p)" using ne' pl by (simp add: lv)
  have ll: "length lv = length ?lvs" by (simp add: lv)
  have ex1: "best_exact ?s ?b'"
  proof (cases "best ?s (book e) = -1 \<or> better ?s ?p (best ?s (book e))")
    case True
    then have b: "best ?s ?b' = ?p" using bs by simp
    have "RingLevel_empty (lv ! i)" if i: "i < length lv" "better ?s (int i) ?p" for i
    proof -
      have inp: "i \<noteq> nat ?p" using i(2) p0 by (auto simp: better_def split: if_splits)
      have "RingLevel_empty (?lvs ! i)"
        using exs True i p0 ll by (auto simp: best_exact_def better_def split: if_splits)
      with emp[OF inp] show ?thesis by simp
    qed
    with b p0 pl nep ll show ?thesis by (simp add: best_exact_def)
  next
    case False
    then have b: "best ?s ?b' = best ?s (book e)" and n1: "best ?s (book e) \<noteq> -1"
      and nb: "\<not> better ?s ?p (best ?s (book e))" using bs by auto
    from exs n1 have o: "0 \<le> best ?s (book e)" "nat (best ?s (book e)) < length ?lvs"
      "\<not> RingLevel_empty (?lvs ! nat (best ?s (book e)))"
      "\<forall>i<length ?lvs. better ?s (int i) (best ?s (book e)) \<longrightarrow> RingLevel_empty (?lvs ! i)"
      by (auto simp: best_exact_def)
    have a: "\<not> RingLevel_empty (lv ! nat (best ?s (book e)))"
      using o(3) nep emp[of "nat (best ?s (book e))"] by (cases "nat (best ?s (book e)) = nat ?p") auto
    have "RingLevel_empty (lv ! i)" if i: "i < length lv" "better ?s (int i) (best ?s (book e))" for i
    proof -
      have inp: "i \<noteq> nat ?p" using i(2) nb p0 by (auto simp: better_def split: if_splits)
      with emp[OF inp] o(4) i ll show ?thesis by simp
    qed
    with b n1 o a ll show ?thesis by (simp add: best_exact_def)
  qed
  have ex2: "best_exact (opposite ?s) ?b'"
    using exo by (simp add: best_exact_def)
  have all: "best_exact s ?b'" for s
  proof (cases "s = ?s")
    case True
    with ex1 show ?thesis by simp
  next
    case False
    then have "s = opposite ?s" by (cases s; cases ?s; simp)
    with ex2 show ?thesis by simp
  qed
  note unc = engine_invD(3)[OF inv, unfolded uncrossed_best]
  have bo: "best (opposite ?s) ?b' = best (opposite ?s) (book e)" by simp
  have "uncrossed ?b'"
  proof (cases ?s)
    case BUY
    with unc bs bo nc q show ?thesis
      unfolding uncrossed_best by (auto simp: sweepCond_def Let_def better_def split: if_splits)
  next
    case SELL
    with unc bs bo nc q show ?thesis
      unfolding uncrossed_best by (auto simp: sweepCond_def Let_def better_def split: if_splits)
  qed
  with wf' all show ?thesis by (simp add: engine_inv_def)
qed

lemma matchAndAdd_inv:
  assumes inv: "engine_inv e" and run: "matchAndAdd clk t e = Some e'"
  shows "engine_inv e'"
proof -
  from run obtain t1 e1 where sw: "sweep clk True (t, e) = Some (t1, e1)"
    and rest: "(if 0 < qty t1 \<and> otype t1 = LIMIT then do {
       (eid, p') \<leftarrow> allocate t1 (pool e1);
       lvl \<leftarrow> at_int (levels (side t1) (book e1)) (priceIdx t1);
       lvl' \<leftarrow> push eid (qty t1) lvl;
       lv \<leftarrow> put_int (levels (side t1) (book e1)) (priceIdx t1) lvl';
       let b = updateBestAfterAdd (side t1) (priceIdx t1) (set_levels (side t1) lv (book e1));
       Some (e1\<lparr>pool := p', book := b, clientToEngine := (clientToEngine e1)(clientId t1 \<mapsto> eid)\<rparr>)
     } else Some e1) = Some e'"
    by (auto simp: matchAndAdd_def bind_eq_Some_conv)
  from sweep_inv[OF sw inv] have inv1: "engine_inv e1" and nc: "\<not> sweepCond True (t1, e1)" by simp_all
  show ?thesis
  proof (cases "0 < qty t1 \<and> otype t1 = LIMIT")
    case False
    with rest inv1 show ?thesis by simp
  next
    case True
    with rest obtain eid p' lvl lvl' lv where
      "allocate t1 (pool e1) = Some (eid, p')"
      "at_int (levels (side t1) (book e1)) (priceIdx t1) = Some lvl"
      "push eid (qty t1) lvl = Some lvl'"
      "put_int (levels (side t1) (book e1)) (priceIdx t1) lvl' = Some lv"
      "e' = e1\<lparr>pool := p', book := updateBestAfterAdd (side t1) (priceIdx t1) (set_levels (side t1) lv (book e1)),
               clientToEngine := (clientToEngine e1)(clientId t1 \<mapsto> eid)\<rparr>"
      by (auto simp: bind_eq_Some_conv Let_def)
    with admit_inv[OF inv1 _ nc] True show ?thesis by simp
  qed
qed

lemma placeLimit_inv: "engine_inv e \<Longrightarrow> placeLimit clk cid s p q now tf e = Some e' \<Longrightarrow> engine_inv e'"
  unfolding placeLimit_def by (rule matchAndAdd_inv)

lemma placeMarket_inv: "engine_inv e \<Longrightarrow> placeMarket clk cid s q now e = Some e' \<Longrightarrow> engine_inv e'"
  unfolding placeMarket_def matchMarket_def
  by (auto simp: bind_eq_Some_conv dest: sweep_inv)

section \<open>The paths of cancel\<close>

lemma cancelE:
  assumes "cancel cid e = Some (r, e')"
  obtains
    (absent) "clientToEngine e cid = None" "r = False" "e' = e"
  | (inactive) eid ord where "clientToEngine e cid = Some eid" "get (pool e) eid = Some ord"
      "\<not> active ord" "r = False" "e' = e\<lparr>clientToEngine := (clientToEngine e)(cid := None)\<rparr>"
  | (notfound) eid ord lvl pos p' where "clientToEngine e cid = Some eid" "get (pool e) eid = Some ord"
      "active ord" "at_int (levels (side ord) (book e)) (priceIdx ord) = Some lvl"
      "cancelScan (data lvl) (tail lvl) eid (head lvl) = Some (False, pos)"
      "free eid (pool e) = Some p'" "r = False"
      "e' = e\<lparr>pool := p', clientToEngine := (clientToEngine e)(cid := None)\<rparr>"
  | (found) eid ord lvl pos dat p' lv b2 where "clientToEngine e cid = Some eid"
      "get (pool e) eid = Some ord" "active ord"
      "at_int (levels (side ord) (book e)) (priceIdx ord) = Some lvl"
      "cancelScan (data lvl) (tail lvl) eid (head lvl) = Some (True, pos)"
      "cancelShift (data lvl) ((tail lvl + length (data lvl) - 1) mod length (data lvl)) pos = Some dat"
      "free eid (pool e) = Some p'"
      "put_int (levels (side ord) (book e)) (priceIdx ord)
         (lvl\<lparr>data := dat, tail := (tail lvl + length (data lvl) - 1) mod length (data lvl),
              totalQty := wrap_i64 (totalQty lvl - qty ord)\<rparr>) = Some lv"
      "(if RingLevel_empty (lvl\<lparr>data := dat, tail := (tail lvl + length (data lvl) - 1) mod length (data lvl),
              totalQty := wrap_i64 (totalQty lvl - qty ord)\<rparr>)
        then updateBestAfterRemove (side ord) (priceIdx ord) (set_levels (side ord) lv (book e))
        else Some (set_levels (side ord) lv (book e))) = Some b2"
      "r = True" "e' = e\<lparr>pool := p', book := b2, clientToEngine := (clientToEngine e)(cid := None)\<rparr>"
proof (cases "clientToEngine e cid")
  case None
  with assms show thesis by (intro absent) (simp_all add: cancel_def)
next
  case (Some eid)
  with assms obtain ord where g: "get (pool e) eid = Some ord"
    by (auto simp: cancel_def bind_eq_Some_conv)
  show thesis
  proof (cases "active ord")
    case False
    with assms Some g show thesis by (intro inactive[of eid ord]) (auto simp: cancel_def)
  next
    case True
    with assms Some g obtain lvl fnd pos where
      at: "at_int (levels (side ord) (book e)) (priceIdx ord) = Some lvl"
      and sc: "cancelScan (data lvl) (tail lvl) eid (head lvl) = Some (fnd, pos)"
      by (auto simp: cancel_def bind_eq_Some_conv)
    show thesis
    proof (cases fnd)
      case False
      with assms Some g True at sc obtain p' where
        "free eid (pool e) = Some p'" "r = False"
        "e' = e\<lparr>pool := p', clientToEngine := (clientToEngine e)(cid := None)\<rparr>"
        by (auto simp: cancel_def bind_eq_Some_conv)
      with Some g True at sc False show thesis by (intro notfound[of eid ord lvl pos p']) simp_all
    next
      case fT: True
      with assms Some g True at sc have nz: "length (data lvl) \<noteq> 0"
        by (auto simp: cancel_def bind_eq_Some_conv split: if_splits)
      with assms Some g True at sc fT obtain dat p' lv b2 where
        "cancelShift (data lvl) ((tail lvl + length (data lvl) - 1) mod length (data lvl)) pos = Some dat"
        "free eid (pool e) = Some p'"
        "put_int (levels (side ord) (book e)) (priceIdx ord)
           (lvl\<lparr>data := dat, tail := (tail lvl + length (data lvl) - 1) mod length (data lvl),
                totalQty := wrap_i64 (totalQty lvl - qty ord)\<rparr>) = Some lv"
        "(if RingLevel_empty (lvl\<lparr>data := dat, tail := (tail lvl + length (data lvl) - 1) mod length (data lvl),
                totalQty := wrap_i64 (totalQty lvl - qty ord)\<rparr>)
          then updateBestAfterRemove (side ord) (priceIdx ord) (set_levels (side ord) lv (book e))
          else Some (set_levels (side ord) lv (book e))) = Some b2"
        "r = True" "e' = e\<lparr>pool := p', book := b2, clientToEngine := (clientToEngine e)(cid := None)\<rparr>"
        by (auto simp: cancel_def bind_eq_Some_conv Let_def)
      with Some g True at sc fT show thesis by (intro found[of eid ord lvl pos dat p' lv b2]) simp_all
    qed
  qed
qed

section \<open>Cancel and replace keep the invariant\<close>

lemma engine_inv_cong:
  "pool e' = pool e \<Longrightarrow> book e' = book e \<Longrightarrow> engine_inv e' = engine_inv e"
  by (simp add: engine_inv_def book_wf_def)

text \<open>An active slot that is not in the level its side and price name is in no level.\<close>

lemma not_in_any_level:
  assumes wf: "book_wf e" and a: "at_int (levels (side (slots (pool e) ! m)) (book e)) (priceIdx (slots (pool e) ! m)) = Some lvl"
    and ni: "m \<notin> set (ring_list lvl)"
  shows "\<forall>i<length (levels s (book e)). m \<notin> set (ring_list (levels s (book e) ! i))"
proof (intro allI impI notI)
  fix i assume i: "i < length (levels s (book e))" and m: "m \<in> set (ring_list (levels s (book e) ! i))"
  from side_inv_mem[OF book_wf_levels(2)[OF wf] i m]
  have "side (slots (pool e) ! m) = s" "priceIdx (slots (pool e) ! m) = int i" by simp_all
  with a have "lvl = levels s (book e) ! i" by (simp add: at_int_Some)
  with m ni show False by simp
qed

lemma level_inv_remove1:
  assumes li: "level_inv sl s i lvl" and m: "m \<in> set (ring_list lvl)"
    and ok': "ring_ok lvl'" and rl': "ring_list lvl' = remove1 m (ring_list lvl)"
    and tq': "totalQty lvl' = wrap_i64 (totalQty lvl - qty (sl ! m))"
  shows "level_inv (sl[m := v]) s i lvl'"
proof -
  let ?rl = "ring_list lvl"
  have d: "distinct ?rl" and tq: "totalQty lvl = wrap_i64 (\<Sum>x\<leftarrow>?rl. qty (sl ! x))"
    using li by (auto simp: level_inv_def)
  have ni: "m \<notin> set (remove1 m ?rl)" using d by simp
  have sub: "set (remove1 m ?rl) \<subseteq> set ?rl" by (rule set_remove1_subset)
  have "(\<Sum>x\<leftarrow>remove1 m ?rl. qty (sl[m := v] ! x)) = (\<Sum>x\<leftarrow>remove1 m ?rl. qty (sl ! x))"
    using ni by (intro sum_list_qty_cong) (simp add: upd_nth_notin)
  also have "\<dots> = (\<Sum>x\<leftarrow>?rl. qty (sl ! x)) - qty (sl ! m)"
    using sum_list_map_remove1[OF m, of "\<lambda>x. qty (sl ! x)"] by simp
  finally have sum: "totalQty lvl' = wrap_i64 (\<Sum>x\<leftarrow>ring_list lvl'. qty (sl[m := v] ! x))"
    using tq' tq by (simp add: rl')
  have "\<forall>x\<in>set (remove1 m ?rl). x < length sl \<and> active (sl[m := v] ! x) \<and> side (sl[m := v] ! x) = s \<and>
          priceIdx (sl[m := v] ! x) = int i \<and> 0 < qty (sl[m := v] ! x)"
    using li sub ni by (auto simp: level_inv_def upd_nth_notin)
  with ok' sum d show ?thesis by (simp add: level_inv_def rl')
qed

lemma best_exact_clear:
  assumes ex: "best_exact s b" and nb: "best s b \<noteq> int p" and pl: "p < length (levels s b)"
    and ne: "\<not> RingLevel_empty (levels s b ! p)"
  shows "best_exact s (set_levels s ((levels s b)[p := l']) b)"
proof -
  have n1: "best s b \<noteq> -1" using ex ne pl by (auto simp: best_exact_def)
  with ex have o: "0 \<le> best s b" "nat (best s b) < length (levels s b)"
    "\<not> RingLevel_empty (levels s b ! nat (best s b))"
    "\<forall>i<length (levels s b). better s (int i) (best s b) \<longrightarrow> RingLevel_empty (levels s b ! i)"
    by (auto simp: best_exact_def)
  have np: "nat (best s b) \<noteq> p" using nb o(1) by auto
  have "\<not> better s (int p) (best s b)" using o(4) ne pl by auto
  then have "RingLevel_empty ((levels s b)[p := l'] ! i)"
    if "i < length (levels s b)" "better s (int i) (best s b)" for i
    using that o(4) by (cases "i = p") auto
  with n1 o np show ?thesis by (simp add: best_exact_def)
qed

lemma cancel_inv:
  assumes inv: "engine_inv e" and run: "cancel cid e = Some (r, e')"
  shows "engine_inv e'"
  using run
proof (cases rule: cancelE)
  case absent
  with inv show ?thesis by simp
next
  case (inactive eid ord)
  with inv engine_inv_cong[of e' e] show ?thesis by simp
next
  case (notfound eid ord lvl pos p')
  note wf = engine_invD(1)[OF inv]
  let ?sl = "slots (pool e)"
  let ?v = "ord\<lparr>active := False, qty := 0\<rparr>"
  from notfound(2) have ord: "ord = ?sl ! eid" and el: "eid < length ?sl" by (simp_all add: get_Some)
  from notfound(6) el ord have p': "p' = \<lparr>slots = ?sl[eid := ?v], freeList = freeList (pool e) @ [eid]\<rparr>"
    by (simp add: free_Some)
  from notfound(4) have il: "nat (priceIdx ord) < length (levels (side ord) (book e))"
    and lvl: "lvl = levels (side ord) (book e) ! nat (priceIdx ord)" by (simp_all add: at_int_Some)
  have ok: "ring_ok lvl" using book_wf_level[OF wf il] lvl by (simp add: level_inv_def)
  from cancelScan_ring[OF ok notfound(5)] have ni: "eid \<notin> set (ring_list lvl)" by simp
  have nowhere: "\<forall>i<length (levels s (book e)). eid \<notin> set (ring_list (levels s (book e) ! i))" for s
    using wf notfound(4) ni unfolding ord by (rule not_in_any_level)
  have wf': "book_wf e'"
  proof (rule book_wfI)
    fix s
    show "nlevels (book e') = int (length (levels s (book e')))"
      using book_wf_levels(1)[OF wf] by (simp add: notfound(8))
    show "side_inv (slots (pool e')) s (levels s (book e'))"
      using side_inv_upd[OF book_wf_levels(2)[OF wf] nowhere] by (simp add: notfound(8) p')
    show "best_in_range s (book e')" using book_wf_levels(4)[OF wf] by (simp add: notfound(8))
  next
    have "free_inv \<lparr>slots = ?sl[eid := ?v], freeList = freeList (pool e) @ [eid]\<rparr>"
      using book_wf_levels(3)[OF wf] el by (rule free_inv_release) (use notfound(3) ord in simp_all)
    then show "free_inv (pool e')" by (simp add: notfound(8) p')
  qed
  with inv show ?thesis by (simp add: engine_inv_def notfound(8))
next
  case (found eid ord lvl pos dat p' lv b2)
  note wf = engine_invD(1)[OF inv]
  let ?sl = "slots (pool e)"
  let ?v = "ord\<lparr>active := False, qty := 0\<rparr>"
  let ?s = "side ord"
  let ?p = "priceIdx ord"
  let ?lvs = "levels ?s (book e)"
  let ?n = "length (data lvl)"
  let ?lvl' = "lvl\<lparr>data := dat, tail := (tail lvl + ?n - 1) mod ?n, totalQty := wrap_i64 (totalQty lvl - qty ord)\<rparr>"
  from found(2) have ord: "ord = ?sl ! eid" and el: "eid < length ?sl" by (simp_all add: get_Some)
  from found(7) el ord have p': "p' = \<lparr>slots = ?sl[eid := ?v], freeList = freeList (pool e) @ [eid]\<rparr>"
    by (simp add: free_Some)
  from found(4) have p0: "0 \<le> ?p" and il: "nat ?p < length ?lvs" and lvl: "lvl = ?lvs ! nat ?p"
    by (simp_all add: at_int_Some)
  from found(8) have lv: "lv = ?lvs[nat ?p := ?lvl']" by (simp add: put_int_Some)
  have li: "level_inv ?sl ?s (nat ?p) lvl" using book_wf_level[OF wf il] lvl by simp
  then have ok: "ring_ok lvl" by (simp add: level_inv_def)
  from cancelScan_ring[OF ok found(5)] obtain k where k: "k < ring_count lvl"
    and pos: "pos = (head lvl + k) mod ?n" and rk: "ring_list lvl ! k = eid"
    and first: "\<forall>i<k. ring_list lvl ! i \<noteq> eid" by auto
  have mem: "eid \<in> set (ring_list lvl)" using k rk by (auto simp: in_set_conv_nth)
  have ne: "\<not> RingLevel_empty lvl" using ok mem by (auto simp: ring_empty_iff)
  from cancel_remove_ring[OF ok k found(6)[unfolded pos] refl, of "wrap_i64 (totalQty lvl - qty ord)"]
  have ok': "ring_ok ?lvl'" and rl0: "ring_list ?lvl' = take k (ring_list lvl) @ drop (Suc k) (ring_list lvl)"
    by simp_all
  have rl': "ring_list ?lvl' = remove1 eid (ring_list lvl)"
    using remove1_first_index[of k "ring_list lvl" eid] k rk first rl0 by simp
  have li': "level_inv (?sl[eid := ?v]) ?s (nat ?p) ?lvl'"
    using li mem ok' rl' by (rule level_inv_remove1) (simp add: ord)
  let ?b1 = "set_levels ?s lv (book e)"
  have n1: "\<And>s. nlevels ?b1 = int (length (levels s ?b1))"
    using book_wf_levels(1)[OF wf] by (simp add: lv)
  have r1: "\<And>s. best_in_range s ?b1"
    using book_wf_levels(4)[OF wf] by (simp add: best_in_range_def)
  have fr: "levels s b2 = levels s ?b1 \<and> nlevels b2 = nlevels ?b1" for s
    using found(9) updateBest_frame(1,2)[of ?s ?p ?b1 b2] by (auto split: if_splits)
  have pe: "pool e' = p'" and be: "book e' = b2" by (simp_all add: found(11))
  have wf': "book_wf e'"
  proof (rule book_wfI)
    fix s
    show "nlevels (book e') = int (length (levels s (book e')))"
      using fr n1 by (simp add: be)
    show "side_inv (slots (pool e')) s (levels s (book e'))"
    proof (cases "s = ?s")
      case True
      have "side_inv (?sl[eid := ?v]) ?s (?lvs[nat ?p := ?lvl'])"
        using book_wf_levels(2)[OF wf] _ li' il
        by (rule side_inv_same) (use p0 ord in simp)
      then show ?thesis using True fr by (simp add: pe be p' lv)
    next
      case False
      have "side_inv (?sl[eid := ?v]) s (levels s (book e))"
        using book_wf_levels(2)[OF wf] by (rule side_inv_other) (use ord False in simp)
      then show ?thesis using False fr by (simp add: pe be p')
    qed
    show "best_in_range s (book e')"
    proof (cases "RingLevel_empty ?lvl'")
      case True
      with found(9) have "updateBestAfterRemove ?s ?p ?b1 = Some b2" by simp
      from best_in_range_upd[OF this n1 p0 r1] show ?thesis by (simp add: be)
    next
      case False
      with found(9) r1 show ?thesis by (simp add: be)
    qed
  next
    have "free_inv \<lparr>slots = ?sl[eid := ?v], freeList = freeList (pool e) @ [eid]\<rparr>"
      using book_wf_levels(3)[OF wf] el by (rule free_inv_release) (use found(3) ord in simp_all)
    then show "free_inv (pool e')" by (simp add: pe p')
  qed
  have ex: "best_exact ?s (book e)" and exo: "best_exact (opposite ?s) (book e)"
    by (rule engine_invD(2)[OF inv])+
  have n: "nlevels (book e) = int (length ?lvs)" by (rule book_wf_levels(1)[OF wf])
  note unc = engine_invD(3)[OF inv, unfolded uncrossed_best]
  have nel: "\<not> RingLevel_empty (?lvs ! nat ?p)" using ne lvl by simp
  have bn1: "best ?s (book e) \<noteq> -1" using ex nel il by (auto simp: best_exact_def)
  have same: "best_exact ?s b2 \<and>
      (best ?s b2 = best ?s (book e) \<or> best ?s b2 = -1 \<or> (0 \<le> best ?s b2 \<and> \<not> better ?s (best ?s b2) (best ?s (book e))))
      \<and> best (opposite ?s) b2 = best (opposite ?s) (book e)"
  proof (cases "RingLevel_empty ?lvl'")
    case False
    with found(9) have b2: "b2 = ?b1" by simp
    have "best_exact ?s ?b1"
      using ex by (rule best_exact_same_empty) (use False nel il in \<open>auto simp: lv nth_list_update\<close>)
    then show ?thesis by (simp add: b2)
  next
    case True
    with found(9) have u: "updateBestAfterRemove ?s ?p (set_levels ?s (?lvs[nat ?p := ?lvl']) (book e)) = Some b2"
      by (simp add: lv)
    show ?thesis
    proof (cases "best ?s (book e) = ?p")
      case bp: True
      from best_exact_rescan[OF ex bp p0 il n True u] updateBest_frame(3)[OF u]
      show ?thesis using bp by auto
    next
      case bp: False
      with updateBest_frame(4)[OF u] have b2: "b2 = set_levels ?s (?lvs[nat ?p := ?lvl']) (book e)" by simp
      have "best ?s (book e) \<noteq> int (nat ?p)" using bp p0 by simp
      from best_exact_clear[OF ex this il nel] show ?thesis by (simp add: b2)
    qed
  qed
  have o2: "levels (opposite ?s) b2 = levels (opposite ?s) (book e)"
    using fr[of "opposite ?s"] by simp
  have exo': "best_exact (opposite ?s) b2"
    using exo best_exact_cong[OF o2, of ] same by simp
  have all: "best_exact s b2" for s
  proof (cases "s = ?s")
    case True
    with same show ?thesis by simp
  next
    case False
    then have "s = opposite ?s" by (cases s; cases ?s; simp)
    with exo' show ?thesis by simp
  qed
  have "uncrossed b2"
  proof (cases ?s)
    case BUY
    with unc same bn1 show ?thesis
      unfolding uncrossed_best by (simp add: better_def) linarith
  next
    case SELL
    with unc same bn1 show ?thesis
      unfolding uncrossed_best by (simp add: better_def) linarith
  qed
  with wf' all show ?thesis by (simp add: engine_inv_def be)
qed

lemma replace_inv:
  assumes inv: "engine_inv e" and run: "replace clk cid p q now e = Some (r, e')"
  shows "engine_inv e'"
proof (cases "clientToEngine e cid")
  case None
  with run inv show ?thesis by (simp add: replace_def)
next
  case (Some eid)
  with run obtain old where g: "get (pool e) eid = Some old"
    by (auto simp: replace_def bind_eq_Some_conv)
  show ?thesis
  proof (cases "active old")
    case False
    with run Some g inv show ?thesis by (simp add: replace_def)
  next
    case True
    with run Some g have "\<exists>r1 e1 old'. cancel cid e = Some (r1, e1) \<and>
        get (pool e1) eid = Some old' \<and>
        placeLimit clk cid (side old') p q now (tif old') e1 = Some e'"
      by (auto simp: replace_def bind_eq_Some_conv)
    then obtain r1 e1 old' where c: "cancel cid e = Some (r1, e1)"
      and g1: "get (pool e1) eid = Some old'"
      and pl: "placeLimit clk cid (side old') p q now (tif old') e1 = Some e'"
      by (elim exE conjE)
    from placeLimit_inv[OF cancel_inv[OF inv c] pl] show ?thesis .
  qed
qed

section \<open>The initial engine and sessions\<close>

lemma ring_list_init [simp]: "ring_list (RingLevel_init w) = []"
  by (simp add: ring_list_def ring_count_def RingLevel_init_def)

lemma level_inv_init: "0 < w \<Longrightarrow> level_inv sl s i (RingLevel_init w)"
  by (simp add: level_inv_def) (simp add: ring_ok_def RingLevel_init_def)

lemma free_inv_init: "free_inv (OrderPool_init cap)"
proof -
  have "inj_on (\<lambda>i. cap - 1 - i) (set [0..<cap])" by (auto simp: inj_on_def)
  then have "distinct (map (\<lambda>i. cap - 1 - i) [0..<cap])" by (simp add: distinct_map)
  then show ?thesis by (auto simp: free_inv_def OrderPool_init_def Order_default_def)
qed

lemma levels_init [simp]: "levels s (OrderBook_init n w) = replicate n (RingLevel_init w)"
  by (cases s) (simp_all add: levels_def OrderBook_init_def)

lemma best_init [simp]: "best s (OrderBook_init n w) = -1"
  by (cases s) (simp_all add: best_def OrderBook_init_def)

lemma engine_inv_new: "0 < w \<Longrightarrow> engine_inv (Engine_new cap n w)"
  by (simp add: engine_inv_def book_wf_def Engine_new_def side_inv_def level_inv_init free_inv_init
      best_in_range_def best_exact_def uncrossed_best)
     (simp add: OrderBook_init_def RingLevel_empty_def RingLevel_init_def)

lemma engine_inv_init: "engine_inv Engine_init"
  unfolding Engine_init_def by (rule engine_inv_new) (simp add: RING_CAPACITY_PER_LEVEL_def)

lemma perform_inv: "engine_inv e \<Longrightarrow> perform clk rq e = Some e' \<Longrightarrow> engine_inv e'"
  by (cases rq)
     (auto simp: perform_def dest: placeLimit_inv placeMarket_inv cancel_inv replace_inv)

lemma run_inv: "engine_inv e \<Longrightarrow> run clk rqs e = Some e' \<Longrightarrow> engine_inv e'"
proof (induction rqs arbitrary: e)
  case Nil
  then show ?case by simp
next
  case (Cons rq rqs)
  from Cons.prems(2) obtain e1 where p: "perform clk rq e = Some e1" and r: "run clk rqs e1 = Some e'"
    by (auto simp: bind_eq_Some_conv)
  from Cons.IH[OF perform_inv[OF Cons.prems(1) p] r] show ?case .
qed

lemma finite_nonempty_levels [simp]: "finite (nonempty_levels lv)"
  by (simp add: nonempty_levels_def)

lemma best_exact_bid:
  assumes "best_exact BUY b"
  shows "bestBid b = (if nonempty_levels (bids b) = {} then -1 else int (Max (nonempty_levels (bids b))))"
proof (cases "bestBid b = -1")
  case True
  with assms have "nonempty_levels (bids b) = {}"
    by (auto simp: best_exact_def best_def levels_def nonempty_levels_def)
  with True show ?thesis by simp
next
  case False
  with assms have o: "0 \<le> bestBid b" "nat (bestBid b) < length (bids b)"
    "\<not> RingLevel_empty (bids b ! nat (bestBid b))"
    "\<forall>i<length (bids b). bestBid b < int i \<longrightarrow> RingLevel_empty (bids b ! i)"
    by (auto simp: best_exact_def best_def levels_def better_def)
  have mem: "nat (bestBid b) \<in> nonempty_levels (bids b)" using o by (simp add: nonempty_levels_def)
  have "Max (nonempty_levels (bids b)) = nat (bestBid b)"
  proof (rule Max_eqI)
    fix y assume "y \<in> nonempty_levels (bids b)"
    then show "y \<le> nat (bestBid b)" using o(1,4) by (auto simp: nonempty_levels_def)
  qed (use mem in simp_all)
  with mem o(1) show ?thesis by auto
qed

lemma best_exact_ask:
  assumes "best_exact SELL b"
  shows "bestAsk b = (if nonempty_levels (asks b) = {} then -1 else int (Min (nonempty_levels (asks b))))"
proof (cases "bestAsk b = -1")
  case True
  with assms have "nonempty_levels (asks b) = {}"
    by (auto simp: best_exact_def best_def levels_def nonempty_levels_def)
  with True show ?thesis by simp
next
  case False
  with assms have o: "0 \<le> bestAsk b" "nat (bestAsk b) < length (asks b)"
    "\<not> RingLevel_empty (asks b ! nat (bestAsk b))"
    "\<forall>i<length (asks b). int i < bestAsk b \<longrightarrow> RingLevel_empty (asks b ! i)"
    by (auto simp: best_exact_def best_def levels_def better_def)
  have mem: "nat (bestAsk b) \<in> nonempty_levels (asks b)" using o by (simp add: nonempty_levels_def)
  have "Min (nonempty_levels (asks b)) = nat (bestAsk b)"
  proof (rule Min_eqI)
    fix y assume "y \<in> nonempty_levels (asks b)"
    then show "nat (bestAsk b) \<le> y" using o(1,4) by (auto simp: nonempty_levels_def)
  qed (use mem in simp_all)
  with mem o(1) show ?thesis by auto
qed

section \<open>The priority order of the book\<close>

subsection \<open>The priority order of one side of the book\<close>

lemma concat_first_nonempty:
  assumes "k < length xs" "\<forall>i<k. f (xs ! i) = []"
  shows "concat (map f (xs[k := y])) = f y @ concat (map f (drop (Suc k) xs))"
proof -
  have "concat (map f (take k xs)) = []"
    using assms by (auto simp: in_set_conv_nth)
  moreover have "xs[k := y] = take k xs @ y # drop (Suc k) xs"
    using assms(1) by (rule upd_conv_take_nth_drop)
  ultimately show ?thesis by simp
qed

lemma concat_first_nonempty':
  assumes "k < length xs" "\<forall>i<k. f (xs ! i) = []"
  shows "concat (map f xs) = f (xs ! k) @ concat (map f (drop (Suc k) xs))"
  using concat_first_nonempty[OF assms, of "xs ! k"] by simp

text \<open>
  \<open>book_order s lv\<close> lists the resting orders of side \<open>s\<close> best price first and, within a
  level, in ring order. Under the invariant its head is the head of the best level.
\<close>

lemma book_order_upd:
  assumes k: "k < length lv" and emp: "\<forall>i<length lv. better s (int i) (int k) \<longrightarrow> ring_list (lv ! i) = []"
  shows "\<exists>R. book_order s lv = ring_list (lv ! k) @ R \<and>
             (\<forall>y. book_order s (lv[k := y]) = ring_list y @ R)"
proof (cases s)
  case SELL
  have e: "\<forall>i<k. ring_list (lv ! i) = []" using emp k SELL by (auto simp: better_def)
  show ?thesis
    using concat_first_nonempty[OF k e] concat_first_nonempty'[OF k e] SELL
    by (auto simp: book_order_def)
next
  case BUY
  let ?k' = "length lv - Suc k"
  have k': "?k' < length (rev lv)" using k by simp
  have e: "\<forall>i<?k'. ring_list (rev lv ! i) = []"
  proof (intro allI impI)
    fix i assume i: "i < ?k'"
    then have "rev lv ! i = lv ! (length lv - Suc i)" using k by (simp add: rev_nth)
    moreover have "better s (int (length lv - Suc i)) (int k)" using i k BUY by (auto simp: better_def)
    ultimately show "ring_list (rev lv ! i) = []" using emp i k by simp
  qed
  have r: "rev (lv[k := y]) = (rev lv)[?k' := y]" for y using k by (simp add: rev_update)
  have n: "rev lv ! ?k' = lv ! k" using k by (simp add: rev_nth)
  show ?thesis
    using concat_first_nonempty[OF k' e] concat_first_nonempty'[OF k' e] BUY
    by (auto simp: book_order_def r n)
qed

lemma book_wf_ring_empty:
  "book_wf e \<Longrightarrow> i < length (levels s (book e)) \<Longrightarrow>
     RingLevel_empty (levels s (book e) ! i) \<longleftrightarrow> ring_list (levels s (book e) ! i) = []"
  using book_wf_level[of e i s] by (simp add: level_inv_def ring_empty_iff)

lemma book_order_best:
  assumes inv: "engine_inv e" and b: "best s (book e) \<noteq> -1"
  shows "\<exists>R. book_order s (levels s (book e)) = ring_list (levels s (book e) ! nat (best s (book e))) @ R \<and>
             (\<forall>y. book_order s ((levels s (book e))[nat (best s (book e)) := y]) = ring_list y @ R)"
proof -
  note wf = engine_invD(1)[OF inv]
  from engine_invD(2)[OF inv, of s] b
  have o: "0 \<le> best s (book e)" "nat (best s (book e)) < length (levels s (book e))"
    "\<forall>i<length (levels s (book e)). better s (int i) (best s (book e)) \<longrightarrow> RingLevel_empty (levels s (book e) ! i)"
    by (auto simp: best_exact_def)
  have "\<forall>i<length (levels s (book e)). better s (int i) (int (nat (best s (book e)))) \<longrightarrow>
          ring_list (levels s (book e) ! i) = []"
    using o(1,3) book_wf_ring_empty[OF wf] by simp
  from book_order_upd[OF o(2) this] show ?thesis .
qed

subsection \<open>The priority order has no duplicates\<close>

lemma distinct_concat_map_idx:
  assumes "\<forall>i<length xs. distinct (f (xs ! i))"
    and "\<forall>i<length xs. \<forall>j<length xs. i \<noteq> j \<longrightarrow> set (f (xs ! i)) \<inter> set (f (xs ! j)) = {}"
  shows "distinct (concat (map f xs))"
  using assms
proof (induction xs)
  case Nil
  then show ?case by simp
next
  case (Cons x xs)
  have d: "distinct (f x)" using Cons.prems(1) by auto
  have a: "\<forall>i<length xs. distinct (f (xs ! i))" using Cons.prems(1) by auto
  have b: "\<forall>i<length xs. \<forall>j<length xs. i \<noteq> j \<longrightarrow> set (f (xs ! i)) \<inter> set (f (xs ! j)) = {}"
  proof (intro allI impI)
    fix i j assume "i < length xs" "j < length xs" "i \<noteq> j"
    with Cons.prems(2)[rule_format, of "Suc i" "Suc j"]
    show "set (f (xs ! i)) \<inter> set (f (xs ! j)) = {}" by simp
  qed
  have c: "set (f x) \<inter> set (f (xs ! j)) = {}" if "j < length xs" for j
    using Cons.prems(2)[rule_format, of 0 "Suc j"] that by simp
  have "set (f x) \<inter> set (f y) = {}" if "y \<in> set xs" for y
  proof -
    from that obtain j where "j < length xs" "y = xs ! j" by (auto simp: in_set_conv_nth)
    with c show ?thesis by simp
  qed
  then have "set (f x) \<inter> set (concat (map f xs)) = {}" by auto
  with d Cons.IH[OF a b] show ?case by simp
qed

lemma book_order_mem:
  "x \<in> set (book_order s lv) \<longleftrightarrow> (\<exists>i<length lv. x \<in> set (ring_list (lv ! i)))"
proof -
  have "(\<exists>l\<in>set lv. x \<in> set (ring_list l)) \<longleftrightarrow> (\<exists>i<length lv. x \<in> set (ring_list (lv ! i)))"
  proof
    assume "\<exists>l\<in>set lv. x \<in> set (ring_list l)"
    then obtain l where "l \<in> set lv" "x \<in> set (ring_list l)" by blast
    moreover then obtain i where "i < length lv" "l = lv ! i" by (auto simp: in_set_conv_nth)
    ultimately show "\<exists>i<length lv. x \<in> set (ring_list (lv ! i))" by blast
  next
    assume "\<exists>i<length lv. x \<in> set (ring_list (lv ! i))"
    then obtain i where "i < length lv" "x \<in> set (ring_list (lv ! i))" by blast
    then show "\<exists>l\<in>set lv. x \<in> set (ring_list l)" using nth_mem by blast
  qed
  then show ?thesis by (cases s) (simp_all add: book_order_def)
qed

lemma distinct_book_order:
  assumes wf: "book_wf e"
  shows "distinct (book_order s (levels s (book e)))"
proof -
  let ?lv = "levels s (book e)"
  have d: "\<forall>i<length ?lv. distinct (ring_list (?lv ! i))"
    using book_wf_level[OF wf] by (simp add: level_inv_def)
  have dj: "\<forall>i<length ?lv. \<forall>j<length ?lv. i \<noteq> j \<longrightarrow>
      set (ring_list (?lv ! i)) \<inter> set (ring_list (?lv ! j)) = {}"
  proof (intro allI impI)
    fix i j assume i: "i < length ?lv" and j: "j < length ?lv" and ne: "i \<noteq> j"
    have False if xi: "x \<in> set (ring_list (?lv ! i))" and xj: "x \<in> set (ring_list (?lv ! j))" for x
      using side_inv_mem[OF book_wf_levels(2)[OF wf] i xi] side_inv_mem[OF book_wf_levels(2)[OF wf] j xj] ne
      by simp
    then show "set (ring_list (?lv ! i)) \<inter> set (ring_list (?lv ! j)) = {}" by blast
  qed
  have fwd: "distinct (concat (map ring_list ?lv))" using d dj by (rule distinct_concat_map_idx)
  have "distinct (concat (map ring_list (rev ?lv)))"
  proof (rule distinct_concat_map_idx)
    show "\<forall>i<length (rev ?lv). distinct (ring_list (rev ?lv ! i))"
      using d by (simp add: rev_nth)
    show "\<forall>i<length (rev ?lv). \<forall>j<length (rev ?lv). i \<noteq> j \<longrightarrow>
        set (ring_list (rev ?lv ! i)) \<inter> set (ring_list (rev ?lv ! j)) = {}"
    proof (intro allI impI)
      fix i j assume i: "i < length (rev ?lv)" and j: "j < length (rev ?lv)" and ne: "i \<noteq> j"
      then have "length ?lv - Suc i \<noteq> length ?lv - Suc j" by auto
      with dj i j show "set (ring_list (rev ?lv ! i)) \<inter> set (ring_list (rev ?lv ! j)) = {}"
        by (simp add: rev_nth)
    qed
  qed
  with fwd show ?thesis by (cases s) (simp_all add: book_order_def)
qed

section \<open>The engine refines matching by price/time priority\<close>

subsection \<open>The head of a side's queue\<close>

lemma side_view_Nil:
  assumes inv: "engine_inv e" and b: "best s (book e) = -1"
  shows "book_order s (levels s (book e)) = []"
proof -
  note wf = engine_invD(1)[OF inv]
  from engine_invD(2)[OF inv, of s] b
  have "\<forall>i<length (levels s (book e)). RingLevel_empty (levels s (book e) ! i)"
    by (simp add: best_exact_def)
  then have "\<forall>i<length (levels s (book e)). ring_list (levels s (book e) ! i) = []"
    using book_wf_ring_empty[OF wf] by simp
  then have "\<forall>x. x \<notin> set (book_order s (levels s (book e)))"
    by (simp add: book_order_mem)
  then show ?thesis by (cases "book_order s (levels s (book e))") auto
qed

lemma side_view_hd:
  assumes inv: "engine_inv e" and b: "best s (book e) \<noteq> -1"
  shows "book_order s (levels s (book e)) \<noteq> []"
    "hd (book_order s (levels s (book e))) = hd (ring_list (levels s (book e) ! nat (best s (book e))))"
    "priceIdx (slots (pool e) ! hd (book_order s (levels s (book e)))) = best s (book e)"
proof -
  let ?bi = "best s (book e)"
  let ?lv = "levels s (book e)"
  note wf = engine_invD(1)[OF inv]
  from engine_invD(2)[OF inv, of s] b have i0: "0 \<le> ?bi" and il: "nat ?bi < length ?lv"
    and ne: "\<not> RingLevel_empty (?lv ! nat ?bi)" by (auto simp: best_exact_def)
  have li: "level_inv (slots (pool e)) s (nat ?bi) (?lv ! nat ?bi)" by (rule book_wf_level[OF wf il])
  note hd = level_head[OF li ne]
  from book_order_best[OF inv b] obtain R where
    Q: "book_order s ?lv = ring_list (?lv ! nat ?bi) @ R" by blast
  have rne: "ring_list (?lv ! nat ?bi) \<noteq> []" using hd(2) by auto
  show "book_order s ?lv \<noteq> []" using Q rne by simp
  show h: "hd (book_order s ?lv) = hd (ring_list (?lv ! nat ?bi))" using Q rne by simp
  show "priceIdx (slots (pool e) ! hd (book_order s ?lv)) = ?bi" using hd(6) i0 by (simp add: h)
qed

lemma sweepCond_view:
  assumes inv: "engine_inv e"
  shows "sweepCond priced (t, e) \<longleftrightarrow>
           0 < qty t \<and>
           (case side_view (opposite (side t)) e of
              [] \<Rightarrow> False
            | (c, p, m) # ms \<Rightarrow> crosses priced (side t) (priceIdx t) p)"
proof (cases "best (opposite (side t)) (book e) = -1")
  case True
  from side_view_Nil[OF inv True] True show ?thesis
    by (simp add: sweepCond_def side_view_def Let_def)
next
  case False
  let ?Q = "book_order (opposite (side t)) (levels (opposite (side t)) (book e))"
  note h = side_view_hd[OF inv False]
  from h(1) obtain x xs where Q: "?Q = x # xs" by (cases ?Q) auto
  with h(3) have p: "priceIdx (slots (pool e) ! x) = best (opposite (side t)) (book e)" by simp
  show ?thesis using False p
    by (simp add: sweepCond_def side_view_def Let_def Q resting_def crosses_def)
qed

subsection \<open>One iteration of the sweep on the queue\<close>

lemma matchStep_view:
  assumes inv: "engine_inv e" and q: "0 < qty t"
    and v: "side_view (opposite (side t)) e = (c, p, m) # ms"
  shows "\<exists>e' tr. matchStep clk (t, e) = Some (t\<lparr>qty := qty t - min m (qty t)\<rparr>, e') \<and>
           engine_inv e' \<and> trades e' = trades e @ [tr] \<and>
           fill_view tr = (clientId t, c, p, min m (qty t)) \<and>
           side_view (opposite (side t)) e' = (if m \<le> qty t then ms else (c, p, m - qty t) # ms) \<and>
           side_view (side t) e' = side_view (side t) e"
proof -
  let ?ms = "opposite (side t)"
  let ?bi = "best ?ms (book e)"
  let ?lv = "levels ?ms (book e)"
  let ?sl = "slots (pool e)"
  let ?Q = "book_order ?ms ?lv"
  note wf = engine_invD(1)[OF inv]
  have b: "?bi \<noteq> -1"
  proof
    assume "?bi = -1"
    from side_view_Nil[OF inv this] v show False by (simp add: side_view_def)
  qed
  from engine_invD(2)[OF inv, of ?ms] b have i0: "0 \<le> ?bi" and il: "nat ?bi < length ?lv"
    and ne: "\<not> RingLevel_empty (?lv ! nat ?bi)" by (auto simp: best_exact_def)
  have li: "level_inv ?sl ?ms (nat ?bi) (?lv ! nat ?bi)" by (rule book_wf_level[OF wf il])
  note hd = level_head[OF li ne]
  from book_order_best[OF inv b] obtain R where
    Q: "?Q = ring_list (?lv ! nat ?bi) @ R"
    and Q': "\<And>y. book_order ?ms (?lv[nat ?bi := y]) = ring_list y @ R" by blast
  have rne: "ring_list (?lv ! nat ?bi) \<noteq> []" using hd(2) by auto
  let ?m0 = "hd (ring_list (?lv ! nat ?bi))"
  have Qc: "?Q = ?m0 # tl ?Q" using Q rne by (cases "ring_list (?lv ! nat ?bi)") auto
  have d: "distinct ?Q" using wf by (rule distinct_book_order)
  have m0tl: "?m0 \<notin> set (tl ?Q)" using d Qc by (metis distinct.simps(2))
  from v Qc have r0: "resting e ?m0 = (c, p, m)" and rtl: "map (resting e) (tl ?Q) = ms"
    by (simp_all add: side_view_def) (metis list.sel(1) list.simps(9), metis list.sel(3) list.simps(9))
  from r0 have c: "clientId (?sl ! ?m0) = c" and p: "priceIdx (?sl ! ?m0) = p" and m: "qty (?sl ! ?m0) = m"
    by (simp_all add: resting_def)
  have own: "side_view (side t) e' = side_view (side t) e"
    if lv: "levels (side t) (book e') = levels (side t) (book e)"
      and sl: "\<exists>v. slots (pool e') = ?sl[?m0 := v]" for e'
  proof -
    have "resting e' x = resting e x" if x: "x \<in> set (book_order (side t) (levels (side t) (book e)))" for x
    proof -
      from x obtain i where i: "i < length (levels (side t) (book e))"
        "x \<in> set (ring_list (levels (side t) (book e) ! i))" by (auto simp: book_order_mem)
      from side_inv_mem[OF book_wf_levels(2)[OF wf] i] hd(5) have "x \<noteq> ?m0" by auto
      with sl show ?thesis by (auto simp: resting_def)
    qed
    then show ?thesis unfolding side_view_def lv by (intro map_cong) auto
  qed
  from matchStep_total[OF wf b] obtain t' e' where step: "matchStep clk (t, e) = Some (t', e')"
    by (metis surj_pair)
  have inv': "engine_inv e'" using inv b step by (rule matchStep_inv)
  from step show ?thesis
  proof (cases rule: matchStepE)
    case (stale pl b')
    with ne show ?thesis by (simp add: at_int_Some)
  next
    case (filled pl m1 mk pl' p' lv' b2)
    from filled(1) have pl: "pl = ?lv ! nat ?bi" by (simp add: at_int_Some)
    from filled(3) hd(1) pl have m1: "m1 = ?m0" by simp
    from filled(4) have mk: "mk = ?sl ! ?m0" and ml: "?m0 < length ?sl" by (simp_all add: get_Some m1)
    from filled(7) ml have p': "slots p' = ?sl[?m0 := mk\<lparr>active := False, qty := 0\<rparr>]"
      by (simp add: free_Some m1)
    from filled(8) have lv': "lv' = ?lv[nat ?bi := pl']" by (simp add: put_int_Some)
    have pop: "pop_front 0 (pl\<lparr>totalQty := wrap_i64 (totalQty pl - qty (?sl ! hd (ring_list pl)))\<rparr>) = Some pl'"
      using filled(6) mk pl by simp
    have rl': "ring_list pl' = tl (ring_list pl)"
      using level_inv_pop(2)[OF _ _ pop] li ne pl by simp
    have l2: "levels ?ms b2 = lv'"
      using filled(9) updateBest_frame(1)[of ?ms ?bi "set_levels ?ms lv' (book e)" b2 ?ms]
      by (auto split: if_splits)
    have Qn: "book_order ?ms (levels ?ms (book e')) = tl ?Q"
      using Q Q'[of pl'] rl' rne pl by (simp add: filled(11) l2 lv')
    have le: "m \<le> qty t" using filled(5) mk m by simp
    have "resting e' x = resting e x" if "x \<in> set (tl ?Q)" for x
    proof -
      from that m0tl have "x \<noteq> ?m0" by auto
      then show ?thesis by (simp add: resting_def filled(11) p')
    qed
    then have "map (resting e') (tl ?Q) = map (resting e) (tl ?Q)" by (intro map_cong) auto
    then have sv: "side_view ?ms e' = ms" using Qn rtl by (simp add: side_view_def)
    have t': "t' = t\<lparr>qty := qty t - min m (qty t)\<rparr>" using filled(10) mk m le by (simp add: min_def)
    have tr: "trades e' = trades e @ [\<lparr>takerClient = clientId t, makerClient = c, trade_qty = m,
         trade_priceIdx = p, trade_ts = clk (length (trades e))\<rparr>]"
      using mk c p m by (simp add: filled(11) emitTrade_def)
    have "levels (side t) b2 = levels (side t) (book e)"
      using filled(9) updateBest_frame(1)[of ?ms ?bi "set_levels ?ms lv' (book e)" b2 "side t"]
      by (auto split: if_splits)
    then have o: "side_view (side t) e' = side_view (side t) e"
      by (intro own) (auto simp: filled(11) p')
    show ?thesis using step t' inv' tr sv le o by (simp add: fill_view_def min_def)
  next
    case (partial pl m1 mk lv')
    from partial(1) have pl: "pl = ?lv ! nat ?bi" by (simp add: at_int_Some)
    from partial(3) hd(1) pl have m1: "m1 = ?m0" by simp
    from partial(4) have mk: "mk = ?sl ! ?m0" and ml: "?m0 < length ?sl" by (simp_all add: get_Some m1)
    from partial(6) have lv': "lv' = ?lv[nat ?bi := pl\<lparr>totalQty := wrap_i64 (totalQty pl - qty t)\<rparr>]"
      by (simp add: put_int_Some)
    have Qn: "book_order ?ms (levels ?ms (book e')) = ?Q"
      using Q Q'[of "pl\<lparr>totalQty := wrap_i64 (totalQty pl - qty t)\<rparr>"] pl by (simp add: partial(8) lv')
    have lt: "qty t < m" using partial(5) mk m by simp
    have sl': "slots (pool e') = ?sl[?m0 := mk\<lparr>qty := qty mk - qty t\<rparr>]"
      by (simp add: partial(8) emitTrade_def m1)
    have "resting e' x = resting e x" if "x \<in> set (tl ?Q)" for x
    proof -
      from that m0tl have "x \<noteq> ?m0" by auto
      then show ?thesis by (simp add: resting_def sl')
    qed
    then have "map (resting e') (tl ?Q) = map (resting e) (tl ?Q)" by (intro map_cong) auto
    moreover have "resting e' ?m0 = (c, p, m - qty t)"
      using ml mk c p m by (simp add: resting_def sl')
    ultimately have sv: "side_view ?ms e' = (c, p, m - qty t) # ms"
      using Qn rtl Qc by (simp add: side_view_def) (metis list.simps(9))
    have t': "t' = t\<lparr>qty := qty t - min m (qty t)\<rparr>" using partial(7) lt by (simp add: min_def)
    have tr: "trades e' = trades e @ [\<lparr>takerClient = clientId t, makerClient = c, trade_qty = qty t,
         trade_priceIdx = p, trade_ts = clk (length (trades e))\<rparr>]"
      using mk c p m by (simp add: partial(8) emitTrade_def)
    have o: "side_view (side t) e' = side_view (side t) e"
      by (intro own) (auto simp: partial(8) emitTrade_def m1)
    show ?thesis using step t' inv' tr sv lt o by (simp add: fill_view_def min_def)
  qed
qed

subsection \<open>The sweep on the queue\<close>

lemma sweep_view:
  assumes "engine_inv e"
    and "spec_fill (crosses priced (side t) (priceIdx t)) (qty t) (side_view (opposite (side t)) e)
           = (fs, ms', q')"
  shows "\<exists>e' X. sweep clk priced (t, e) = Some (t\<lparr>qty := q'\<rparr>, e') \<and> engine_inv e' \<and>
           trades e' = trades e @ X \<and>
           map fill_view X = map (\<lambda>(c, p, m). (clientId t, c, p, m)) fs \<and>
           side_view (opposite (side t)) e' = ms' \<and>
           side_view (side t) e' = side_view (side t) e"
  using assms
proof (induction "side_view (opposite (side t)) e" arbitrary: t e fs ms' q')
  case Nil
  from Nil(1)[symmetric] Nil(3) have r: "fs = []" "ms' = []" "q' = qty t" by simp_all
  have nc: "\<not> sweepCond priced (t, e)"
    using sweepCond_view[OF Nil(2), of priced t] Nil(1)[symmetric] by simp
  have "sweep clk priced (t, e) = Some (t, e)" using nc by (subst sweep.simps) simp
  then show ?case using r Nil(1)[symmetric] Nil(2) by simp
next
  case (Cons x ms)
  obtain c p m where x: "x = (c, p, m)" by (cases x)
  note v = Cons(2)[symmetric, unfolded x]
  let ?ok = "crosses priced (side t) (priceIdx t)"
  show ?case
  proof (cases "0 < qty t \<and> ?ok p")
    case False
    with Cons(4) v have r: "fs = []" "ms' = (c, p, m) # ms" "q' = qty t" by auto
    have nc: "\<not> sweepCond priced (t, e)"
      using sweepCond_view[OF Cons(3), of priced t] v False by auto
    have "sweep clk priced (t, e) = Some (t, e)" using nc by (subst sweep.simps) simp
    then show ?thesis using r v Cons(3) by simp
  next
    case True
    then have q: "0 < qty t" and ok: "?ok p" by simp_all
    have c: "sweepCond priced (t, e)"
      using sweepCond_view[OF Cons(3), of priced t] v True by simp
    from matchStep_view[OF Cons(3) q v, of clk] obtain e1 tr where
      st: "matchStep clk (t, e) = Some (t\<lparr>qty := qty t - min m (qty t)\<rparr>, e1)"
      and inv1: "engine_inv e1" and tr: "trades e1 = trades e @ [tr]"
      and fv: "fill_view tr = (clientId t, c, p, min m (qty t))"
      and v1: "side_view (opposite (side t)) e1 = (if m \<le> qty t then ms else (c, p, m - qty t) # ms)"
      and o1: "side_view (side t) e1 = side_view (side t) e"
      by blast
    let ?t1 = "t\<lparr>qty := qty t - min m (qty t)\<rparr>"
    have sw: "sweep clk priced (t, e) = sweep clk priced (?t1, e1)"
      using c st by (subst sweep.simps) simp
    show ?thesis
    proof (cases "m \<le> qty t")
      case True
      obtain fs0 where sf: "spec_fill ?ok (qty t - m) ms = (fs0, ms', q')" and fs: "fs = (c, p, m) # fs0"
        using Cons(4) v True q ok by (auto split: prod.splits)
      have t1: "?t1 = t\<lparr>qty := qty t - m\<rparr>" using True by (simp add: min_def)
      have v1': "ms = side_view (opposite (side (t\<lparr>qty := qty t - m\<rparr>))) e1" using v1 True by simp
      have sf': "spec_fill (crosses priced (side (t\<lparr>qty := qty t - m\<rparr>)) (priceIdx (t\<lparr>qty := qty t - m\<rparr>)))
                   (qty (t\<lparr>qty := qty t - m\<rparr>)) (side_view (opposite (side (t\<lparr>qty := qty t - m\<rparr>))) e1)
                 = (fs0, ms', q')"
        using sf v1 True by simp
      from Cons(1)[OF v1' inv1 sf'] obtain e' X where
        s2: "sweep clk priced (t\<lparr>qty := qty t - m\<rparr>, e1) = Some (t\<lparr>qty := q'\<rparr>, e')"
        and r2: "engine_inv e'" "trades e' = trades e1 @ X"
          "map fill_view X = map (\<lambda>(c, p, m). (clientId t, c, p, m)) fs0"
          "side_view (opposite (side t)) e' = ms'"
          "side_view (side t) e' = side_view (side t) e1"
        by auto
      have "trades e' = trades e @ (tr # X)" using tr r2(2) by simp
      moreover have "map fill_view (tr # X) = map (\<lambda>(c, p, m). (clientId t, c, p, m)) fs"
        using fv r2(3) fs True by (simp add: min_def)
      ultimately show ?thesis using sw s2 r2(1,4,5) t1 o1
        by (intro exI[of _ e'] exI[of _ "tr # X"]) simp
    next
      case False
      with Cons(4) v q ok have r: "fs = [(c, p, qty t)]" "ms' = (c, p, m - qty t) # ms" "q' = 0" by auto
      have t1: "?t1 = t\<lparr>qty := 0\<rparr>" using False by (simp add: min_def)
      have "\<not> sweepCond priced (t\<lparr>qty := 0\<rparr>, e1)" by (simp add: sweepCond_def Let_def)
      then have "sweep clk priced (t\<lparr>qty := 0\<rparr>, e1) = Some (t\<lparr>qty := 0\<rparr>, e1)"
        by (subst sweep.simps) simp
      then show ?thesis using sw t1 r inv1 tr fv v1 o1 False
        by (intro exI[of _ e1] exI[of _ "[tr]"]) (simp add: min_def)
    qed
  qed
qed

subsection \<open>A residual joins the queue of its side\<close>

lemma takeWhile_split:
  assumes "\<forall>x\<in>set xs. P x" and "\<forall>x\<in>set ys. \<not> P x"
  shows "takeWhile P (xs @ ys) = xs" "dropWhile P (xs @ ys) = ys"
proof -
  have t: "takeWhile P ys = []" using assms(2) by (cases ys) auto
  have d: "dropWhile P ys = ys" using assms(2) by (cases ys) auto
  show "takeWhile P (xs @ ys) = xs" using assms(1) t by (simp add: takeWhile_append2)
  show "dropWhile P (xs @ ys) = ys" using assms(1) d by (simp add: dropWhile_append2)
qed

lemma concat_split_mem:
  assumes "i < length lv"
  shows "concat (map f (lv[i := y])) = concat (map f (take i lv)) @ f y @ concat (map f (drop (Suc i) lv))"
    "concat (map f lv) = concat (map f (take i lv)) @ f (lv ! i) @ concat (map f (drop (Suc i) lv))"
    "x \<in> set (concat (map f (take i lv))) \<Longrightarrow> \<exists>k<i. x \<in> set (f (lv ! k))"
    "x \<in> set (concat (map f (drop (Suc i) lv))) \<Longrightarrow> \<exists>k. i < k \<and> k < length lv \<and> x \<in> set (f (lv ! k))"
proof -
  have u: "lv[i := y] = take i lv @ y # drop (Suc i) lv" using assms by (rule upd_conv_take_nth_drop)
  show "concat (map f (lv[i := y])) = concat (map f (take i lv)) @ f y @ concat (map f (drop (Suc i) lv))"
    unfolding u by simp
  have "lv = take i lv @ lv ! i # drop (Suc i) lv" using assms by (simp add: id_take_nth_drop)
  then have "concat (map f lv) = concat (map f (take i lv @ lv ! i # drop (Suc i) lv))" by simp
  then show "concat (map f lv) = concat (map f (take i lv)) @ f (lv ! i) @ concat (map f (drop (Suc i) lv))"
    by simp
  show "\<exists>k<i. x \<in> set (f (lv ! k))" if "x \<in> set (concat (map f (take i lv)))"
  proof -
    from that obtain l where l: "l \<in> set (take i lv)" "x \<in> set (f l)" by auto
    then obtain k where "k < length (take i lv)" "l = take i lv ! k" by (auto simp: in_set_conv_nth)
    with l assms show ?thesis by (intro exI[of _ k]) simp
  qed
  show "\<exists>k. i < k \<and> k < length lv \<and> x \<in> set (f (lv ! k))" if "x \<in> set (concat (map f (drop (Suc i) lv)))"
  proof -
    from that obtain l where l: "l \<in> set (drop (Suc i) lv)" "x \<in> set (f l)" by auto
    then obtain k where "k < length (drop (Suc i) lv)" "l = drop (Suc i) lv ! k"
      by (auto simp: in_set_conv_nth)
    with l assms show ?thesis by (intro exI[of _ "Suc i + k"]) simp
  qed
qed

lemma book_order_split:
  assumes i: "i < length lv"
  shows "\<exists>A B. (\<forall>y. book_order s (lv[i := y]) = A @ ring_list y @ B) \<and>
           book_order s lv = A @ ring_list (lv ! i) @ B \<and>
           (\<forall>x\<in>set A. \<exists>k<length lv. better s (int k) (int i) \<and> x \<in> set (ring_list (lv ! k))) \<and>
           (\<forall>x\<in>set B. \<exists>k<length lv. better s (int i) (int k) \<and> x \<in> set (ring_list (lv ! k)))"
proof (cases s)
  case SELL
  let ?A = "concat (map ring_list (take i lv))"
  let ?B = "concat (map ring_list (drop (Suc i) lv))"
  note c = concat_split_mem[OF i, where f = ring_list]
  have "\<forall>x\<in>set ?A. \<exists>k<length lv. better s (int k) (int i) \<and> x \<in> set (ring_list (lv ! k))"
  proof
    fix x assume "x \<in> set ?A"
    from c(3)[OF this] obtain k where k: "k < i" "x \<in> set (ring_list (lv ! k))" by blast
    with i SELL show "\<exists>k<length lv. better s (int k) (int i) \<and> x \<in> set (ring_list (lv ! k))"
      by (intro exI[of _ k]) (simp add: better_def)
  qed
  moreover have "\<forall>x\<in>set ?B. \<exists>k<length lv. better s (int i) (int k) \<and> x \<in> set (ring_list (lv ! k))"
  proof
    fix x assume "x \<in> set ?B"
    from c(4)[OF this] obtain k where k: "i < k" "k < length lv" "x \<in> set (ring_list (lv ! k))" by blast
    with SELL show "\<exists>k<length lv. better s (int i) (int k) \<and> x \<in> set (ring_list (lv ! k))"
      by (intro exI[of _ k]) (simp add: better_def)
  qed
  ultimately show ?thesis using c(1,2) SELL
    by (intro exI[of _ ?A] exI[of _ ?B]) (simp add: book_order_def)
next
  case BUY
  let ?n = "length lv"
  let ?j = "?n - Suc i"
  let ?A = "concat (map ring_list (take ?j (rev lv)))"
  let ?B = "concat (map ring_list (drop (Suc ?j) (rev lv)))"
  have j: "?j < length (rev lv)" using i by simp
  note c = concat_split_mem[OF j, where f = ring_list]
  have r: "rev (lv[i := y]) = (rev lv)[?j := y]" for y using i by (simp add: rev_update)
  have n: "rev lv ! ?j = lv ! i" using i by (simp add: rev_nth)
  have A: "\<forall>x\<in>set ?A. \<exists>k<length lv. better s (int k) (int i) \<and> x \<in> set (ring_list (lv ! k))"
  proof
    fix x assume "x \<in> set ?A"
    from c(3)[OF this] obtain k where k: "k < ?j" "x \<in> set (ring_list (rev lv ! k))" by blast
    then have "rev lv ! k = lv ! (?n - Suc k)" using i by (simp add: rev_nth)
    with k i BUY show "\<exists>k<length lv. better s (int k) (int i) \<and> x \<in> set (ring_list (lv ! k))"
      by (intro exI[of _ "?n - Suc k"]) (auto simp: better_def)
  qed
  have B: "\<forall>x\<in>set ?B. \<exists>k<length lv. better s (int i) (int k) \<and> x \<in> set (ring_list (lv ! k))"
  proof
    fix x assume "x \<in> set ?B"
    from c(4)[OF this] obtain k where k: "?j < k" "k < ?n" "x \<in> set (ring_list (rev lv ! k))" by auto
    then have "rev lv ! k = lv ! (?n - Suc k)" by (simp add: rev_nth)
    with k i BUY show "\<exists>k<length lv. better s (int i) (int k) \<and> x \<in> set (ring_list (lv ! k))"
      by (intro exI[of _ "?n - Suc k"]) (auto simp: better_def)
  qed
  show ?thesis using c(1,2) A B BUY n
    by (intro exI[of _ ?A] exI[of _ ?B]) (simp add: book_order_def r)
qed

lemma admit_view:
  assumes inv: "engine_inv e"
    and al: "allocate t (pool e) = Some (eid, p')"
    and at: "at_int (levels (side t) (book e)) (priceIdx t) = Some lvl"
    and pu: "push eid (qty t) lvl = Some lvl'"
    and put: "put_int (levels (side t) (book e)) (priceIdx t) lvl' = Some lv"
    and e': "e' = e\<lparr>pool := p',
               book := updateBestAfterAdd (side t) (priceIdx t) (set_levels (side t) lv (book e)),
               clientToEngine := c\<rparr>"
  shows "side_view (opposite (side t)) e' = side_view (opposite (side t)) e"
    and "side_view (side t) e' = spec_rest (side t) (clientId t, priceIdx t, qty t) (side_view (side t) e)"
proof -
  let ?s = "side t"
  let ?p = "priceIdx t"
  let ?i = "nat ?p"
  let ?sl = "slots (pool e)"
  let ?lvs = "levels ?s (book e)"
  note wf = engine_invD(1)[OF inv]
  from al have eid: "eid = last (freeList (pool e))" and fne: "freeList (pool e) \<noteq> []"
    and el: "eid < length ?sl"
    and p': "slots p' = ?sl[eid := t\<lparr>engineId := eid, active := True\<rparr>]"
    by (simp_all add: allocate_Some)
  have ina: "\<not> active (?sl ! eid)"
    using free_inv_allocate(2)[OF book_wf_levels(3)[OF wf] fne] eid by simp
  have notin: "eid \<notin> set (book_order s' (levels s' (book e)))" for s'
  proof
    assume "eid \<in> set (book_order s' (levels s' (book e)))"
    then obtain k where k: "k < length (levels s' (book e))"
      "eid \<in> set (ring_list (levels s' (book e) ! k))" by (auto simp: book_order_mem)
    from side_inv_mem[OF book_wf_levels(2)[OF wf] k] ina show False by simp
  qed
  have same: "resting e' x = resting e x" if "x \<noteq> eid" for x
    using that by (simp add: resting_def e' p')
  have new: "resting e' eid = (clientId t, ?p, qty t)"
    using el by (simp add: resting_def e' p')
  have lo: "levels (opposite ?s) (book e') = levels (opposite ?s) (book e)" by (simp add: e')
  show "side_view (opposite ?s) e' = side_view (opposite ?s) e"
  proof -
    have "resting e' x = resting e x"
      if "x \<in> set (book_order (opposite ?s) (levels (opposite ?s) (book e)))" for x
      using that notin[of "opposite ?s"] by (intro same) auto
    then show ?thesis unfolding side_view_def lo by (intro map_cong) auto
  qed
  from at have p0: "0 \<le> ?p" and il: "?i < length ?lvs" and lvl: "lvl = ?lvs ! ?i"
    by (simp_all add: at_int_Some)
  from put have lv: "lv = ?lvs[?i := lvl']" by (simp add: put_int_Some)
  have li: "level_inv ?sl ?s ?i lvl" using book_wf_level[OF wf il] lvl by simp
  then have ok: "ring_ok lvl" by (simp add: level_inv_def)
  from ring_push[OF ok pu] have rl': "ring_list lvl' = ring_list lvl @ [eid]" by simp
  have ls: "levels ?s (book e') = lv" by (simp add: e')
  from book_order_split[OF il, of ?s] obtain A B where
    Qy: "\<And>y. book_order ?s (?lvs[?i := y]) = A @ ring_list y @ B"
    and Q: "book_order ?s ?lvs = A @ ring_list lvl @ B"
    and A: "\<forall>x\<in>set A. \<exists>k<length ?lvs. better ?s (int k) (int ?i) \<and> x \<in> set (ring_list (?lvs ! k))"
    and B: "\<forall>x\<in>set B. \<exists>k<length ?lvs. better ?s (int ?i) (int k) \<and> x \<in> set (ring_list (?lvs ! k))"
    unfolding lvl by blast
  have Q': "book_order ?s (levels ?s (book e')) = (A @ ring_list lvl) @ eid # B"
    using Qy[of lvl'] rl' by (simp add: ls lv)
  have nA: "eid \<notin> set (A @ ring_list lvl)" and nB: "eid \<notin> set B" using notin[of ?s] Q by auto
  have "resting e' x = resting e x" if "x \<in> set (A @ ring_list lvl)" for x
    using that nA by (intro same) auto
  then have mA: "map (resting e') (A @ ring_list lvl) = map (resting e) (A @ ring_list lvl)"
    by (intro map_cong) auto
  have "resting e' x = resting e x" if "x \<in> set B" for x
    using that nB by (intro same) auto
  then have mB: "map (resting e') B = map (resting e) B"
    by (intro map_cong) auto
  have v': "side_view ?s e' = map (resting e) (A @ ring_list lvl) @ (clientId t, ?p, qty t) # map (resting e) B"
    unfolding side_view_def Q' using mA mB new by simp
  have v: "side_view ?s e = map (resting e) (A @ ring_list lvl) @ map (resting e) B"
    unfolding side_view_def Q by simp
  have pr: "priceIdx (?sl ! x) = int k" if "k < length ?lvs" "x \<in> set (ring_list (?lvs ! k))" for x k
    using side_inv_mem[OF book_wf_levels(2)[OF wf] that] by simp
  have a1: "\<forall>y\<in>set (map (resting e) (A @ ring_list lvl)). ahead ?s ?p y"
  proof
    fix y assume "y \<in> set (map (resting e) (A @ ring_list lvl))"
    then obtain x where x: "x \<in> set A \<or> x \<in> set (ring_list lvl)" and y: "y = resting e x" by auto
    from x show "ahead ?s ?p y"
    proof
      assume "x \<in> set A"
      with A obtain k where k: "k < length ?lvs" "better ?s (int k) (int ?i)"
        "x \<in> set (ring_list (?lvs ! k))" by blast
      from pr[OF k(1,3)] k(2) p0 show ?thesis
        by (cases ?s) (simp_all add: y resting_def ahead_def better_def)
    next
      assume "x \<in> set (ring_list lvl)"
      with pr[OF il, of x] lvl p0 show ?thesis
        by (cases ?s) (simp_all add: y resting_def ahead_def)
    qed
  qed
  have a2: "\<forall>y\<in>set (map (resting e) B). \<not> ahead ?s ?p y"
  proof
    fix y assume "y \<in> set (map (resting e) B)"
    then obtain x where x: "x \<in> set B" and y: "y = resting e x" by auto
    with B obtain k where k: "k < length ?lvs" "better ?s (int ?i) (int k)"
      "x \<in> set (ring_list (?lvs ! k))" by blast
    from pr[OF k(1,3)] k(2) p0 show "\<not> ahead ?s ?p y"
      by (cases ?s) (simp_all add: y resting_def ahead_def better_def)
  qed
  show "side_view ?s e' = spec_rest ?s (clientId t, ?p, qty t) (side_view ?s e)"
    unfolding v v' spec_rest_def using takeWhile_split[OF a1 a2] by simp
qed

subsection \<open>The placing operations on the two queues\<close>

lemma limit_view:
  assumes inv: "engine_inv e"
    and sf: "spec_fill (crosses True s p) q (side_view (opposite s) e) = (fs, opp, q')"
  shows "(q' \<le> 0 \<longrightarrow> (\<exists>e'. placeLimit clk cid s p q now tf e = Some e')) \<and>
         (\<forall>e'. placeLimit clk cid s p q now tf e = Some e' \<longrightarrow>
            engine_inv e' \<and>
            (\<exists>X. trades e' = trades e @ X \<and> map fill_view X = map (\<lambda>(c, p', m). (cid, c, p', m)) fs) \<and>
            side_view (opposite s) e' = opp \<and>
            side_view s e' = (if 0 < q' then spec_rest s (cid, p, q') (side_view s e) else side_view s e))"
proof -
  let ?t = "Order_default\<lparr>clientId := cid, side := s, otype := LIMIT, priceIdx := p, qty := q,
          ts := now, tif := tf\<rparr>"
  have sf': "spec_fill (crosses True (side ?t) (priceIdx ?t)) (qty ?t) (side_view (opposite (side ?t)) e)
               = (fs, opp, q')" using sf by simp
  from sweep_view[OF inv sf', of clk] obtain e1 X where
    sw: "sweep clk True (?t, e) = Some (?t\<lparr>qty := q'\<rparr>, e1)" and inv1: "engine_inv e1"
    and tr: "trades e1 = trades e @ X" "map fill_view X = map (\<lambda>(c, p', m). (cid, c, p', m)) fs"
    and vo: "side_view (opposite s) e1 = opp" and vs: "side_view s e1 = side_view s e"
    by auto
  let ?t1 = "?t\<lparr>qty := q'\<rparr>"
  have pl: "placeLimit clk cid s p q now tf e =
      (if 0 < q' then do {
         (eid, p') \<leftarrow> allocate ?t1 (pool e1);
         lvl \<leftarrow> at_int (levels s (book e1)) p;
         lvl' \<leftarrow> push eid q' lvl;
         lv \<leftarrow> put_int (levels s (book e1)) p lvl';
         Some (e1\<lparr>pool := p', book := updateBestAfterAdd s p (set_levels s lv (book e1)),
                  clientToEngine := (clientToEngine e1)(cid \<mapsto> eid)\<rparr>)
       } else Some e1)"
    by (simp add: placeLimit_def matchAndAdd_def sw Let_def)
  show ?thesis
  proof (cases "0 < q'")
    case False
    with pl have "placeLimit clk cid s p q now tf e = Some e1" by simp
    with False inv1 tr vo vs show ?thesis by auto
  next
    case True
    have "engine_inv e' \<and>
            (\<exists>X. trades e' = trades e @ X \<and> map fill_view X = map (\<lambda>(c, p', m). (cid, c, p', m)) fs) \<and>
            side_view (opposite s) e' = opp \<and>
            side_view s e' = spec_rest s (cid, p, q') (side_view s e)"
      if r: "placeLimit clk cid s p q now tf e = Some e'" for e'
    proof -
      from r pl True obtain eid p' lvl lvl' lv where
        al: "allocate ?t1 (pool e1) = Some (eid, p')"
        and at: "at_int (levels s (book e1)) p = Some lvl"
        and pu: "push eid q' lvl = Some lvl'"
        and put: "put_int (levels s (book e1)) p lvl' = Some lv"
        and e': "e' = e1\<lparr>pool := p', book := updateBestAfterAdd s p (set_levels s lv (book e1)),
                  clientToEngine := (clientToEngine e1)(cid \<mapsto> eid)\<rparr>"
        by (auto simp: bind_eq_Some_conv)
      have a: "at_int (levels (side ?t1) (book e1)) (priceIdx ?t1) = Some lvl" using at by simp
      have b: "push eid (qty ?t1) lvl = Some lvl'" using pu by simp
      have c: "put_int (levels (side ?t1) (book e1)) (priceIdx ?t1) lvl' = Some lv" using put by simp
      have d: "e' = e1\<lparr>pool := p',
               book := updateBestAfterAdd (side ?t1) (priceIdx ?t1) (set_levels (side ?t1) lv (book e1)),
               clientToEngine := (clientToEngine e1)(cid \<mapsto> eid)\<rparr>" using e' by simp
      from admit_view[OF inv1 al a b c d]
      have "side_view (opposite s) e' = side_view (opposite s) e1"
        "side_view s e' = spec_rest s (cid, p, q') (side_view s e1)" by simp_all
      moreover have "engine_inv e'" using inv r by (rule placeLimit_inv)
      moreover have "trades e' = trades e1" by (simp add: e')
      ultimately show ?thesis using tr vo vs by auto
    qed
    with True show ?thesis by auto
  qed
qed

lemma market_view:
  assumes inv: "engine_inv e"
    and sf: "spec_fill (crosses False s (-1)) q (side_view (opposite s) e) = (fs, opp, q')"
  shows "\<exists>e' X. placeMarket clk cid s q now e = Some e' \<and> engine_inv e' \<and>
           trades e' = trades e @ X \<and> map fill_view X = map (\<lambda>(c, p', m). (cid, c, p', m)) fs \<and>
           side_view (opposite s) e' = opp \<and> side_view s e' = side_view s e"
proof -
  let ?t = "Order_default\<lparr>clientId := cid, side := s, otype := MARKET, priceIdx := -1, qty := q,
          ts := now\<rparr>"
  have sf': "spec_fill (crosses False (side ?t) (priceIdx ?t)) (qty ?t) (side_view (opposite (side ?t)) e)
               = (fs, opp, q')" using sf by simp
  from sweep_view[OF inv sf', of clk] obtain e1 X where
    sw: "sweep clk False (?t, e) = Some (?t\<lparr>qty := q'\<rparr>, e1)" and inv1: "engine_inv e1"
    and tr: "trades e1 = trades e @ X" "map fill_view X = map (\<lambda>(c, p', m). (cid, c, p', m)) fs"
    and vo: "side_view (opposite s) e1 = opp" and vs: "side_view s e1 = side_view s e"
    by auto
  have "placeMarket clk cid s q now e = Some e1" by (simp add: placeMarket_def matchMarket_def sw)
  with inv1 tr vo vs show ?thesis by blast
qed

lemma place_view:
  assumes inv: "engine_inv e" and pl: "is_place rq"
    and sp: "spec_place rq (side_view BUY e, side_view SELL e) = (fs, (bq, aq), r)"
  shows "(r \<le> 0 \<longrightarrow> (\<exists>e'. perform clk rq e = Some e')) \<and>
         (\<forall>e'. perform clk rq e = Some e' \<longrightarrow>
            engine_inv e' \<and> (\<exists>X. trades e' = trades e @ X \<and> map fill_view X = fs) \<and>
            side_view BUY e' = bq \<and> side_view SELL e' = aq)"
proof (cases rq)
  case (PlaceLimit cid s p q now tf)
  obtain fs0 opp q' where sf: "spec_fill (crosses True s p) q (side_view (opposite s) e) = (fs0, opp, q')"
    by (metis prod_cases3)
  note lv = limit_view[OF inv sf, of clk cid now tf]
  show ?thesis
  proof (cases s)
    case BUY
    with sp PlaceLimit sf have "fs = map (\<lambda>(c, p', m). (cid, c, p', m)) fs0" "r = q'" "aq = opp"
      "bq = (if 0 < q' then spec_rest BUY (cid, p, q') (side_view BUY e) else side_view BUY e)"
      by (auto simp: spec_place_def)
    with lv BUY PlaceLimit show ?thesis by (simp add: perform_def)
  next
    case SELL
    with sp PlaceLimit sf have "fs = map (\<lambda>(c, p', m). (cid, c, p', m)) fs0" "r = q'" "bq = opp"
      "aq = (if 0 < q' then spec_rest SELL (cid, p, q') (side_view SELL e) else side_view SELL e)"
      by (auto simp: spec_place_def)
    with lv SELL PlaceLimit show ?thesis by (simp add: perform_def)
  qed
next
  case (PlaceMarket cid s q now)
  obtain fs0 opp q' where sf: "spec_fill (crosses False s (-1)) q (side_view (opposite s) e) = (fs0, opp, q')"
    by (metis prod_cases3)
  from market_view[OF inv sf, of clk cid now] obtain e1 X where
    m: "placeMarket clk cid s q now e = Some e1" "engine_inv e1" "trades e1 = trades e @ X"
      "map fill_view X = map (\<lambda>(c, p', m). (cid, c, p', m)) fs0"
      "side_view (opposite s) e1 = opp" "side_view s e1 = side_view s e" by blast
  show ?thesis
  proof (cases s)
    case BUY
    with sp PlaceMarket sf have "fs = map (\<lambda>(c, p', m). (cid, c, p', m)) fs0" "r = 0" "aq = opp"
      "bq = side_view BUY e" by (auto simp: spec_place_def)
    with m BUY PlaceMarket show ?thesis by (auto simp: perform_def)
  next
    case SELL
    with sp PlaceMarket sf have "fs = map (\<lambda>(c, p', m). (cid, c, p', m)) fs0" "r = 0" "bq = opp"
      "aq = side_view SELL e" by (auto simp: spec_place_def)
    with m SELL PlaceMarket show ?thesis by (auto simp: perform_def)
  qed
next
  case (Cancel cid)
  with pl show ?thesis by (simp add: is_place_def)
next
  case (Replace cid p q now)
  with pl show ?thesis by (simp add: is_place_def)
qed

lemma run_view:
  assumes "engine_inv e" and "\<forall>rq\<in>set rqs. is_place rq"
    and "spec_run rqs (side_view BUY e, side_view SELL e) = (fs, (bq, aq), full)"
  shows "(full \<longrightarrow> (\<exists>e'. run clk rqs e = Some e')) \<and>
         (\<forall>e'. run clk rqs e = Some e' \<longrightarrow>
            (\<exists>X. trades e' = trades e @ X \<and> map fill_view X = fs) \<and>
            side_view BUY e' = bq \<and> side_view SELL e' = aq)"
  using assms
proof (induction rqs arbitrary: e fs bq aq full)
  case Nil
  then show ?case by simp
next
  case (Cons rq rqs)
  obtain fs1 bq1 aq1 r where sp: "spec_place rq (side_view BUY e, side_view SELL e) = (fs1, (bq1, aq1), r)"
    by (metis surj_pair)
  obtain fs2 bq2 aq2 full2 where sr: "spec_run rqs (bq1, aq1) = (fs2, (bq2, aq2), full2)"
    by (metis surj_pair)
  from Cons.prems(3) sp sr have res: "fs = fs1 @ fs2" "bq = bq2" "aq = aq2" "full = (r \<le> 0 \<and> full2)"
    by simp_all
  from Cons.prems(2) have pl: "is_place rq" and pls: "\<forall>rq\<in>set rqs. is_place rq" by simp_all
  note pv = place_view[OF Cons.prems(1) pl sp, of clk]
  have step: "(full2 \<longrightarrow> (\<exists>e'. run clk rqs e1 = Some e')) \<and>
         (\<forall>e'. run clk rqs e1 = Some e' \<longrightarrow>
            (\<exists>X. trades e' = trades e1 @ X \<and> map fill_view X = fs2) \<and>
            side_view BUY e' = bq2 \<and> side_view SELL e' = aq2)"
    if p: "perform clk rq e = Some e1" for e1
  proof -
    from pv p have inv1: "engine_inv e1" and v: "side_view BUY e1 = bq1" "side_view SELL e1 = aq1"
      by simp_all
    from sr v have "spec_run rqs (side_view BUY e1, side_view SELL e1) = (fs2, (bq2, aq2), full2)"
      by simp
    from Cons.IH[OF inv1 pls this] show ?thesis .
  qed
  have tot: "\<exists>e'. run clk (rq # rqs) e = Some e'" if f: "full"
  proof -
    from f res have "r \<le> 0" "full2" by simp_all
    with pv obtain e1 where p: "perform clk rq e = Some e1" by blast
    with step[OF p] \<open>full2\<close> show ?thesis by simp
  qed
  have safe: "(\<exists>X. trades e' = trades e @ X \<and> map fill_view X = fs) \<and>
            side_view BUY e' = bq \<and> side_view SELL e' = aq"
    if r: "run clk (rq # rqs) e = Some e'" for e'
  proof -
    from r obtain e1 where p: "perform clk rq e = Some e1" and r2: "run clk rqs e1 = Some e'"
      by (auto simp: bind_eq_Some_conv)
    from pv p obtain X1 where x1: "trades e1 = trades e @ X1" "map fill_view X1 = fs1" by blast
    from step[OF p] r2 obtain X2 where x2: "trades e' = trades e1 @ X2" "map fill_view X2 = fs2"
      and v: "side_view BUY e' = bq2" "side_view SELL e' = aq2" by blast
    have "trades e' = trades e @ (X1 @ X2)" "map fill_view (X1 @ X2) = fs"
      using x1 x2 res by simp_all
    with v res show ?thesis by blast
  qed
  from tot safe show ?case by blast
qed

lemma side_view_init: "side_view s Engine_init = []"
proof -
  have "best s (book Engine_init) = -1" by (simp add: Engine_init_def Engine_new_def)
  from side_view_Nil[OF engine_inv_init this] show ?thesis by (simp add: side_view_def)
qed

section \<open>Facts for the concrete scenarios\<close>

subsection \<open>Scans over empty levels\<close>

lemma scanUp_all_empty:
  "0 \<le> i \<Longrightarrow> n \<le> int (length lv) \<Longrightarrow>
   (\<forall>k. nat i \<le> k \<and> k < nat n \<longrightarrow> RingLevel_empty (lv ! k)) \<Longrightarrow> scanUp lv n i = Some (-1)"
proof (induction lv n i rule: scanUp.induct)
  case (1 lv n i)
  show ?case
  proof (cases "i < n")
    case False
    then show ?thesis by (simp add: scanUp.simps)
  next
    case True
    with "1.prems" have lt: "nat i < length lv" by linarith
    from "1.prems" True have e: "RingLevel_empty (lv ! nat i)" by simp
    have a: "at_int lv i = Some (lv ! nat i)" using "1.prems"(1) lt by (simp add: at_int_def at_def)
    have "scanUp lv n (i + 1) = Some (-1)"
    proof (rule "1.IH"[OF True a])
      show "\<not> \<not> RingLevel_empty (lv ! nat i)" using e by simp
      show "0 \<le> i + 1" using "1.prems"(1) by simp
      show "n \<le> int (length lv)" by fact
      show "\<forall>k. nat (i + 1) \<le> k \<and> k < nat n \<longrightarrow> RingLevel_empty (lv ! k)"
        using "1.prems"(3) "1.prems"(1) by (auto simp: nat_add_distrib)
    qed
    with True a e show ?thesis by (subst scanUp.simps) simp
  qed
qed

lemma scanDown_all_empty:
  "i < int (length lv) \<Longrightarrow>
   (\<forall>k. int k \<le> i \<longrightarrow> RingLevel_empty (lv ! k)) \<Longrightarrow> scanDown lv i = Some (-1)"
proof (induction lv i rule: scanDown.induct)
  case (1 lv i)
  show ?case
  proof (cases "0 \<le> i")
    case False
    then show ?thesis by (simp add: scanDown.simps)
  next
    case True
    with "1.prems" have lt: "nat i < length lv" by linarith
    from "1.prems" True have e: "RingLevel_empty (lv ! nat i)" by simp
    have a: "at_int lv i = Some (lv ! nat i)" using True lt by (simp add: at_int_def at_def)
    have "scanDown lv (i - 1) = Some (-1)"
    proof (rule "1.IH"[OF True a])
      show "\<not> \<not> RingLevel_empty (lv ! nat i)" using e by simp
      show "i - 1 < int (length lv)" using "1.prems"(1) by simp
      show "\<forall>k. int k \<le> i - 1 \<longrightarrow> RingLevel_empty (lv ! k)"
        using "1.prems"(2) by auto
    qed
    with True a e show ?thesis by (subst scanDown.simps) simp
  qed
qed

lemma scanUp_replicate_upd:
  assumes "RingLevel_empty r" and "RingLevel_empty x" and "0 \<le> i" and "n \<le> int m"
  shows "scanUp ((replicate m r)[j := x]) n i = Some (-1)"
proof (rule scanUp_all_empty)
  show "\<forall>k. nat i \<le> k \<and> k < nat n \<longrightarrow> RingLevel_empty ((replicate m r)[j := x] ! k)"
  proof (intro allI impI)
    fix k assume "nat i \<le> k \<and> k < nat n"
    with assms have "k < m" by linarith
    with assms show "RingLevel_empty ((replicate m r)[j := x] ! k)"
      by (cases "j = k") simp_all
  qed
qed (use assms in simp_all)

lemma scanDown_replicate_upd:
  assumes "RingLevel_empty r" and "RingLevel_empty x" and "i < int m"
  shows "scanDown ((replicate m r)[j := x]) i = Some (-1)"
proof (rule scanDown_all_empty)
  show "\<forall>k. int k \<le> i \<longrightarrow> RingLevel_empty ((replicate m r)[j := x] ! k)"
  proof (intro allI impI)
    fix k assume "int k \<le> i"
    with assms have "k < m" by linarith
    with assms show "RingLevel_empty ((replicate m r)[j := x] ! k)"
      by (cases "j = k") simp_all
  qed
qed (use assms in simp_all)

lemma sum_list_replicate_upd:
  "sum_list ((replicate n (0::int))[k := x]) = (if k < n then x else 0)"
  by (cases "k < n") (simp_all add: upd_conv_take_nth_drop sum_list_replicate list_update_beyond)

subsection \<open>The time-in-force of the taker is never read\<close>

lemma matchStep_tif:
  "matchStep clk (t\<lparr>tif := tf\<rparr>, e) = map_option (\<lambda>(t', e'). (t'\<lparr>tif := tf\<rparr>, e')) (matchStep clk (t, e))"
  by (simp add: matchStep_def emitTrade_def Let_def split: option.splits bind_splits prod.splits)

lemma sweepCond_tif: "sweepCond pr (t\<lparr>tif := tf\<rparr>, e) = sweepCond pr (t, e)"
  by (simp add: sweepCond_def)

lemma sweep_tif_Some:
  assumes "sweep clk pr te = Some te'"
  shows "sweep clk pr ((fst te)\<lparr>tif := tf\<rparr>, snd te) = Some ((fst te')\<lparr>tif := tf\<rparr>, snd te')"
  using assms
proof (induction arbitrary: rule: sweep.raw_induct[rotated 1, consumes 1])
  case (1 sw clk pr te te')
  obtain t e where te: "te = (t, e)" by (cases te)
  show ?case
  proof (cases "sweepCond pr te")
    case False
    with 1(2) te show ?thesis by (subst sweep.simps) (simp add: sweepCond_tif)
  next
    case True
    with 1(2) obtain te1 where m: "matchStep clk te = Some te1" and s: "sw clk pr te1 = Some te'"
      by (auto simp: bind_eq_Some_conv)
    from 1(1)[OF s] have "sweep clk pr ((fst te1)\<lparr>tif := tf\<rparr>, snd te1) = Some ((fst te')\<lparr>tif := tf\<rparr>, snd te')" .
    moreover have "matchStep clk (t\<lparr>tif := tf\<rparr>, e) = Some ((fst te1)\<lparr>tif := tf\<rparr>, snd te1)"
      using m te by (simp add: matchStep_tif split: prod.splits)
    ultimately show ?thesis using True te
      by (subst sweep.simps) (simp add: sweepCond_tif)
  qed
qed

lemma sweep_tif:
  "sweep clk pr (t\<lparr>tif := tf\<rparr>, e) = map_option (\<lambda>(t', e'). (t'\<lparr>tif := tf\<rparr>, e')) (sweep clk pr (t, e))"
proof (cases "sweep clk pr (t, e)")
  case (Some te')
  from sweep_tif_Some[OF Some, of tf] Some show ?thesis by (simp add: split_beta)
next
  case None
  show ?thesis
  proof (cases "sweep clk pr (t\<lparr>tif := tf\<rparr>, e)")
    case n: None
    with None show ?thesis by simp
  next
    case (Some te')
    from sweep_tif_Some[OF Some, of "tif t"] None show ?thesis by simp
  qed
qed

lemma tif_upd_commute:
  "t\<lparr>tif := tf, engineId := i, active := a\<rparr> = t\<lparr>engineId := i, active := a, tif := tf\<rparr>"
  by (cases t) simp

lemma allocate_tif:
  "allocate (t\<lparr>tif := tf\<rparr>) p =
     map_option (\<lambda>(i, p'). (i, p'\<lparr>slots := (slots p')[i := (slots p' ! i)\<lparr>tif := tf\<rparr>]\<rparr>)) (allocate t p)"
  by (simp add: allocate_def put_def Let_def tif_upd_commute)

lemma rel_option_bind_same:
  "(\<And>y. x = Some y \<Longrightarrow> rel_option R (f y) (g y)) \<Longrightarrow> rel_option R (x \<bind> f) (x \<bind> g)"
  by (cases x) simp_all

lemma map_tif_update:
  "i < length sl \<Longrightarrow> map (\<lambda>x. x\<lparr>tif := GFD\<rparr>) (sl[i := (sl ! i)\<lparr>tif := tf\<rparr>]) = map (\<lambda>x. x\<lparr>tif := GFD\<rparr>) sl"
  by (simp add: map_update list_update_same_conv)

lemma allocate_length: "allocate t p = Some (i, p') \<Longrightarrow> i < length (slots p')"
  by (auto simp: allocate_def put_def Let_def split: if_splits)

lemma matchAndAdd_tif:
  "rel_option same_up_to_tif (matchAndAdd clk (t\<lparr>tif := tf\<rparr>) e) (matchAndAdd clk t e)"
proof -
  have refl: "same_up_to_tif x x" for x by (simp add: same_up_to_tif_def)
  show ?thesis
  proof (cases "sweep clk True (t, e)")
    case None
    then show ?thesis unfolding matchAndAdd_def sweep_tif by simp
  next
    case (Some te)
    obtain t' e' where te: "te = (t', e')" by (cases te)
    show ?thesis
    proof (cases "0 < qty t' \<and> otype t' = LIMIT")
      case False
      then show ?thesis unfolding matchAndAdd_def sweep_tif Some te
        by (auto simp: refl)
    next
      case True
      show ?thesis
      proof (cases "allocate t' (pool e')")
        case None
        with True show ?thesis unfolding matchAndAdd_def sweep_tif Some te
          by (simp add: allocate_tif)
      next
        case a: (Some ip)
        obtain i p' where ip: "ip = (i, p')" by (cases ip)
        from allocate_length[OF a[unfolded ip]] have "i < length (slots p')" .
        then have m: "map (\<lambda>x. x\<lparr>tif := GFD\<rparr>) ((slots p')[i := (slots p' ! i)\<lparr>tif := tf\<rparr>])
                    = map (\<lambda>x. x\<lparr>tif := GFD\<rparr>) (slots p')" by (rule map_tif_update)
        from True a ip show ?thesis unfolding matchAndAdd_def sweep_tif Some te
          apply (simp add: allocate_tif del: list_update_id)
          apply (intro rel_option_bind_same)
          apply (simp add: same_up_to_tif_def m Let_def)
          done
      qed
    qed
  qed
qed


subsection \<open>Evaluation of concrete sessions\<close>

lemmas scen_eval = engine_eval scanUp_replicate_upd scanDown_replicate_upd

section \<open>Cancel and the pool\<close>

lemma cancel_erases:
  assumes "cancel c e = Some (r, e1)"
  shows "clientToEngine e1 c = None"
proof (cases "clientToEngine e c")
  case None
  with assms show ?thesis by (simp add: cancel_def)
next
  case (Some eid)
  with assms show ?thesis
    by (auto simp: cancel_def bind_eq_Some_conv Let_def split: if_splits prod.splits)
qed

text \<open>
  Claim C8. Cancel is idempotent: whenever \<open>cancel c\<close> returns, with whatever result, a
  second \<open>cancel c\<close> right after it returns false and leaves the whole engine state as
  it is. Every returning path of \<open>cancel\<close> erases \<open>c\<close> from the client index (or finds
  it absent), so the second call takes the first \<open>return false\<close>.
\<close>

theorem cancel_idempotent:
  "cancel c e = Some (r, e1) \<Longrightarrow> cancel c e1 = Some (False, e1)"
  by (drule cancel_erases) (simp add: cancel_def)

text \<open>
  Witness for C8 (scenario 6 of the specification): two bids rest at 4999 and 5000 in
  the initial engine; the bid at 5000 is cancelled, and cancelled again.
\<close>

theorem cancel_idempotent_witness:
  "\<exists>e1 e2 e3. placeLimit clk0 1 BUY 4999 1 0 GFD Engine_init = Some e1 \<and>
     placeLimit clk0 2 BUY 5000 1 0 GFD e1 = Some e2 \<and>
     cancel 2 e2 = Some (True, e3) \<and> cancel 2 e3 = Some (False, e3)"
proof -
  obtain e1 e2 e3 where
    s: "placeLimit clk0 1 BUY 4999 1 0 GFD Engine_init = Some e1"
       "placeLimit clk0 2 BUY 5000 1 0 GFD e1 = Some e2"
       "cancel 2 e2 = Some (True, e3)"
    by (simp add: engine_eval del: upt_rec_numeral)
  from s cancel_idempotent[OF s(3)] show ?thesis by blast
qed

text \<open>
  Claim C9. \<open>OrderPool::free\<close> clears the active flag and the remaining quantity of the
  freed slot and pushes its index on the free list; every other field of the slot
  (client id, engine id, side, type, time in force, price index, timestamp) and every
  other slot is left as it was.
\<close>

theorem free_frame:
  "free idx p = Some p' \<Longrightarrow>
     freeList p' = freeList p @ [idx] \<and>
     length (slots p') = length (slots p) \<and>
     (\<forall>j. j \<noteq> idx \<longrightarrow> slots p' ! j = slots p ! j) \<and>
     active (slots p' ! idx) = False \<and> qty (slots p' ! idx) = 0 \<and>
     clientId (slots p' ! idx) = clientId (slots p ! idx) \<and>
     engineId (slots p' ! idx) = engineId (slots p ! idx) \<and>
     side (slots p' ! idx) = side (slots p ! idx) \<and>
     otype (slots p' ! idx) = otype (slots p ! idx) \<and>
     tif (slots p' ! idx) = tif (slots p ! idx) \<and>
     priceIdx (slots p' ! idx) = priceIdx (slots p ! idx) \<and>
     ts (slots p' ! idx) = ts (slots p ! idx)"
  by (auto simp: free_def at_def bind_eq_Some_conv split: if_splits)

text \<open>Witness for C9: slot 0 of \<open>demo_pool\<close>, a resting IOC sell order, is freed.\<close>

theorem free_frame_witness:
  "\<exists>p'. free 0 demo_pool = Some p' \<and> freeList p' = [1, 0] \<and>
     \<not> active (slots p' ! 0) \<and> qty (slots p' ! 0) = 0 \<and> clientId (slots p' ! 0) = 7 \<and>
     side (slots p' ! 0) = SELL \<and> tif (slots p' ! 0) = IOC \<and> priceIdx (slots p' ! 0) = 5000 \<and>
     slots p' ! 1 = Order_default"
proof -
  obtain p' where f: "free 0 demo_pool = Some p'"
    by (simp add: free_def at_def demo_pool_def)
  from free_frame[OF f] f show ?thesis
    by (simp add: demo_pool_def Order_default_def)
qed


section \<open>Termination of the sweep\<close>

text \<open>
  Claim C10. From every well-formed state (every resting order has a positive remaining
  quantity, the rings and the best caches are in range; the caches may be stale) the
  sweep loop of \<open>matchAndAdd\<close> (\<open>priced = True\<close>) and of \<open>matchMarket\<close>
  (\<open>priced = False\<close>) returns, for every taker, and so does \<open>placeMarket\<close>. Each
  iteration keeps the state well-formed and either strictly decreases the taker's
  remaining quantity (which covers the removal of a maker), or leaves it alone and
  moves the best-opposite cache strictly towards \<open>-1\<close>: \<open>best_dist\<close> counts the levels
  the cache can still visit.
\<close>

theorem sweep_terminates_wf:
  assumes wf: "book_wf e"
  shows "(\<exists>r. sweep clk priced (t, e) = Some r) \<and>
         (\<exists>e'. placeMarket clk cid s q now e = Some e') \<and>
         (sweepCond priced (t, e) \<longrightarrow>
            (\<exists>t' e'. matchStep clk (t, e) = Some (t', e') \<and> book_wf e' \<and>
               (qty t' < qty t \<or>
                qty t' = qty t \<and>
                best_dist (opposite (side t)) (book e') < best_dist (opposite (side t)) (book e))))"
proof -
  have step: "\<exists>te'. matchStep clk te = Some te' \<and> book_wf (snd te') \<and> sweep_measure te' < sweep_measure te"
    if I: "book_wf (snd te)" and c: "sweepCond pr te" for te pr
  proof -
    obtain t1 e1 where te: "te = (t1, e1)" by (cases te)
    from c te have q: "0 < qty t1" and b: "best (opposite (side t1)) (book e1) \<noteq> -1"
      by (simp_all add: sweepCond_def Let_def)
    from I te have wf1: "book_wf e1" by simp
    from matchStep_total[OF wf1 b] obtain t2 e2 where st: "matchStep clk (t1, e1) = Some (t2, e2)"
      by (metis surj_pair)
    from matchStep_progress[OF wf1 q st] q
    have "sweep_measure (t2, e2) < sweep_measure (t1, e1)"
      by (auto simp: sweep_measure_def)
    with st matchStep_wf[OF wf1 st] te show ?thesis by simp
  qed
  have fin: "\<exists>r. sweep clk pr (t0, e) = Some r" for pr t0
    by (rule sweep_terminates[where I = "\<lambda>te. book_wf (snd te)" and f = sweep_measure])
       (use wf step in simp_all)
  have "\<exists>e'. placeMarket clk cid s q now e = Some e'"
  proof -
    from fin[of False] obtain t1 e1 where
      "sweep clk False (Order_default\<lparr>clientId := cid, side := s, otype := MARKET, priceIdx := -1,
          qty := q, ts := now\<rparr>, e) = Some (t1, e1)"
      by (metis surj_pair)
    then show ?thesis by (simp add: placeMarket_def matchMarket_def)
  qed
  moreover have "\<exists>t' e'. matchStep clk (t, e) = Some (t', e') \<and> book_wf e' \<and>
               (qty t' < qty t \<or>
                qty t' = qty t \<and>
                best_dist (opposite (side t)) (book e') < best_dist (opposite (side t)) (book e))"
    if c: "sweepCond priced (t, e)"
  proof -
    from c have q: "0 < qty t" and b: "best (opposite (side t)) (book e) \<noteq> -1"
      by (simp_all add: sweepCond_def Let_def)
    from matchStep_total[OF wf b] obtain t' e' where st: "matchStep clk (t, e) = Some (t', e')"
      by (metis surj_pair)
    from matchStep_progress[OF wf q st] matchStep_wf[OF wf st] st show ?thesis by blast
  qed
  ultimately show ?thesis using fin[of priced t] by blast
qed

lemma demo_asks_run: "run clk0 preload_asks Engine_init = Some demo_asks"
  by (simp add: demo_asks_def preload_asks_def perform_def engine_eval del: upt_rec_numeral)

lemma demo_asks_inv: "engine_inv demo_asks"
  using engine_inv_init demo_asks_run by (rule run_inv)

text \<open>
  Witness for C10: the market buy of 8 against the three preloaded asks. The first
  iteration fills the ask of 2 at 5000 and leaves the taker with 6.
\<close>

theorem sweep_terminates_wf_witness:
  "book_wf demo_asks \<and>
   (\<exists>r. sweep clk0 False (market_buy_8, demo_asks) = Some r) \<and>
   (\<exists>e'. placeMarket clk0 40 BUY 8 0 demo_asks = Some e') \<and>
   sweepCond False (market_buy_8, demo_asks) \<and>
   (\<exists>t' e'. matchStep clk0 (market_buy_8, demo_asks) = Some (t', e') \<and> book_wf e' \<and>
      (qty t' < qty market_buy_8 \<or>
       qty t' = qty market_buy_8 \<and>
       best_dist (opposite (side market_buy_8)) (book e')
         < best_dist (opposite (side market_buy_8)) (book demo_asks)))"
proof -
  have wf: "book_wf demo_asks" using demo_asks_inv by (rule engine_invD(1))
  have c: "sweepCond False (market_buy_8, demo_asks)"
    by (simp add: demo_asks_def sweepCond_def market_buy_8_def preload_asks_def perform_def
          engine_eval del: upt_rec_numeral)
  from sweep_terminates_wf[OF wf, of clk0 False market_buy_8 40 BUY 8 0] wf c
  show ?thesis by blast
qed


section \<open>Invariants of the public operations\<close>

text \<open>
  \<open>engine_inv\<close> is the invariant of the engine: it holds of \<open>Engine_init\<close>
  (\<open>engine_inv_init\<close>) and every public operation that returns keeps it
  (\<open>perform_inv\<close>). \<open>run\<close> performs a list of requests, so the two theorems below
  speak of the state after every completed operation of any session that starts in a
  state satisfying the invariant, the initial one in particular.
\<close>

text \<open>
  Claim C5. After every completed public operation \<open>bestBid\<close> is the greatest index
  of a non-empty bids level, \<open>bestAsk\<close> the least index of a non-empty asks level,
  each \<open>-1\<close> when its side has no non-empty level; and when both are set,
  \<open>bestBid < bestAsk\<close>.
\<close>

theorem best_caches_exact:
  assumes "engine_inv e" and "run clk rqs e = Some e'"
  shows "bestBid (book e') =
           (if nonempty_levels (bids (book e')) = {} then -1
            else int (Max (nonempty_levels (bids (book e'))))) \<and>
         bestAsk (book e') =
           (if nonempty_levels (asks (book e')) = {} then -1
            else int (Min (nonempty_levels (asks (book e'))))) \<and>
         (bestBid (book e') \<noteq> -1 \<and> bestAsk (book e') \<noteq> -1 \<longrightarrow>
            bestBid (book e') < bestAsk (book e'))"
proof -
  have inv: "engine_inv e'" using assms by (rule run_inv)
  from best_exact_bid[OF engine_invD(2)[OF inv]] best_exact_ask[OF engine_invD(2)[OF inv]]
    engine_invD(3)[OF inv]
  show ?thesis by (simp add: uncrossed_def)
qed

lemma demo_session_run:
  "\<exists>e'. run clk0 demo_session Engine_init = Some e' \<and>
     bestBid (book e') = 4997 \<and> bestAsk (book e') = 5002 \<and>
     totalQty (asks (book e') ! 5002) = 2 \<and> ring_list (asks (book e') ! 5002) = [2] \<and>
     qty (slots (pool e') ! 2) = 2 \<and>
     totalQty (bids (book e') ! 4996) = 2 \<and> ring_list (bids (book e') ! 4996) = [4] \<and>
     qty (slots (pool e') ! 4) = 2"
  by (simp add: demo_session_def preload_asks_def perform_def engine_eval
        ring_list_def ring_count_def del: upt_rec_numeral)

text \<open>
  Witness for C5: after \<open>demo_session\<close> the best bid is 4997 and the best ask 5002.
\<close>

theorem best_caches_exact_witness:
  "engine_inv Engine_init \<and>
   (\<exists>e'. run clk0 demo_session Engine_init = Some e' \<and>
      bestBid (book e') = 4997 \<and> int (Max (nonempty_levels (bids (book e')))) = 4997 \<and>
      bestAsk (book e') = 5002 \<and> int (Min (nonempty_levels (asks (book e')))) = 5002 \<and>
      bestBid (book e') < bestAsk (book e'))"
proof -
  from demo_session_run obtain e' where r: "run clk0 demo_session Engine_init = Some e'"
    and b: "bestBid (book e') = 4997" "bestAsk (book e') = 5002" by blast
  from best_caches_exact[OF engine_inv_init r] b
  have "int (Max (nonempty_levels (bids (book e')))) = 4997"
    "int (Min (nonempty_levels (asks (book e')))) = 5002"
    by (auto split: if_splits)
  with r b engine_inv_init show ?thesis by auto
qed

text \<open>
  Claim C6, as amended. The counter of a level is an \<open>i64\<close> that \<open>push\<close> increases with
  no bound check. After every completed public operation the aggregate quantity counter
  of every price level, on both sides, is the sum of the remaining quantities of the
  orders its ring holds (\<open>ring_list\<close>: the entries from \<open>head\<close> up to \<open>tail\<close>) as an
  \<open>i64\<close> holds it: the sum itself whenever it is below \<open>2^63\<close>, and the sum reduced
  modulo \<open>2^64\<close> in general.
\<close>

theorem aggregate_qty_i64:
  assumes "engine_inv e" and "run clk rqs e = Some e'"
  shows "(\<forall>i<length (bids (book e')).
            totalQty (bids (book e') ! i) =
              wrap_i64 (\<Sum>x\<leftarrow>ring_list (bids (book e') ! i). qty (slots (pool e') ! x)) \<and>
            ((\<Sum>x\<leftarrow>ring_list (bids (book e') ! i). qty (slots (pool e') ! x)) < 9223372036854775808 \<longrightarrow>
             totalQty (bids (book e') ! i) =
               (\<Sum>x\<leftarrow>ring_list (bids (book e') ! i). qty (slots (pool e') ! x)))) \<and>
         (\<forall>i<length (asks (book e')).
            totalQty (asks (book e') ! i) =
              wrap_i64 (\<Sum>x\<leftarrow>ring_list (asks (book e') ! i). qty (slots (pool e') ! x)) \<and>
            ((\<Sum>x\<leftarrow>ring_list (asks (book e') ! i). qty (slots (pool e') ! x)) < 9223372036854775808 \<longrightarrow>
             totalQty (asks (book e') ! i) =
               (\<Sum>x\<leftarrow>ring_list (asks (book e') ! i). qty (slots (pool e') ! x))))"
proof -
  have wf: "book_wf e'" using run_inv[OF assms] by (rule engine_invD(1))
  have *: "totalQty (levels s (book e') ! i) =
            wrap_i64 (\<Sum>x\<leftarrow>ring_list (levels s (book e') ! i). qty (slots (pool e') ! x)) \<and>
          ((\<Sum>x\<leftarrow>ring_list (levels s (book e') ! i). qty (slots (pool e') ! x)) < 9223372036854775808 \<longrightarrow>
           totalQty (levels s (book e') ! i) =
             (\<Sum>x\<leftarrow>ring_list (levels s (book e') ! i). qty (slots (pool e') ! x)))"
    if i: "i < length (levels s (book e'))" for s i
  proof -
    let ?S = "\<Sum>x\<leftarrow>ring_list (levels s (book e') ! i). qty (slots (pool e') ! x)"
    from book_wf_level[OF wf i]
    have t: "totalQty (levels s (book e') ! i) = wrap_i64 ?S"
      and pos: "\<forall>x\<in>set (ring_list (levels s (book e') ! i)). 0 < qty (slots (pool e') ! x)"
      by (simp_all add: level_inv_def)
    have "0 \<le> ?S" using pos by (intro sum_list_nonneg) auto
    then have "?S < 9223372036854775808 \<Longrightarrow> wrap_i64 ?S = ?S"
      by (intro wrap_i64_in_range) simp_all
    with t show ?thesis by simp
  qed
  have b: "levels BUY (book e') = bids (book e')" and a: "levels SELL (book e') = asks (book e')"
    by (simp_all add: levels_def)
  from *[of _ BUY] *[of _ SELL] show ?thesis unfolding a b by blast
qed

text \<open>
  Witness for C6: after \<open>demo_session\<close> the asks level 5002 holds the order in slot 2
  with 2 remaining, and the bids level 4996 holds the replaced order in slot 4.
\<close>

theorem aggregate_qty_i64_witness:
  "engine_inv Engine_init \<and>
   (\<exists>e'. run clk0 demo_session Engine_init = Some e' \<and>
      4996 < length (bids (book e')) \<and> 5002 < length (asks (book e')) \<and>
      totalQty (bids (book e') ! 4996) = 2 \<and>
      (\<Sum>x\<leftarrow>ring_list (bids (book e') ! 4996). qty (slots (pool e') ! x)) = 2 \<and>
      totalQty (asks (book e') ! 5002) = 2 \<and>
      (\<Sum>x\<leftarrow>ring_list (asks (book e') ! 5002). qty (slots (pool e') ! x)) = 2)"
proof -
  from demo_session_run obtain e' where r: "run clk0 demo_session Engine_init = Some e'"
    and t: "totalQty (asks (book e') ! 5002) = 2" "totalQty (bids (book e') ! 4996) = 2"
    and l: "ring_list (asks (book e') ! 5002) = [2]" "ring_list (bids (book e') ! 4996) = [4]"
    and q: "qty (slots (pool e') ! 2) = 2" "qty (slots (pool e') ! 4) = 2" by blast
  have inv: "engine_inv e'" using engine_inv_init r by (rule run_inv)
  have n: "nlevels (book e') = 20001"
    using r by (auto simp: demo_session_def preload_asks_def perform_def engine_eval
        simp del: upt_rec_numeral)
  have len: "4996 < length (bids (book e'))" "5002 < length (asks (book e'))"
    using book_wf_levels(1)[OF engine_invD(1)[OF inv], of BUY]
      book_wf_levels(1)[OF engine_invD(1)[OF inv], of SELL] n by (simp_all add: levels_def)
  from aggregate_qty_i64[OF engine_inv_init r] len l q
  have "totalQty (bids (book e') ! 4996) =
          (\<Sum>x\<leftarrow>ring_list (bids (book e') ! 4996). qty (slots (pool e') ! x))"
    "totalQty (asks (book e') ! 5002) =
          (\<Sum>x\<leftarrow>ring_list (asks (book e') ! 5002). qty (slots (pool e') ! x))"
    by auto
  with r len t engine_inv_init show ?thesis by auto
qed

text \<open>
  Claim C6 as the specification states it fails when the quantities resting at one level
  exceed the range of the counter. Two sells of \<open>2^62\<close> units at the level 5000 are
  admitted to slots 0 and 1; their remaining quantities sum to \<open>2^63\<close>, and the counter
  of the level holds \<open>-2^63\<close>.
\<close>

theorem aggregate_qty_overflow:
  "run clk0 overflow_session Engine_init = Some overflow_result \<and>
   ring_list (asks (book overflow_result) ! 5000) = [0, 1] \<and>
   qty (slots (pool overflow_result) ! 0) = 4611686018427387904 \<and>
   qty (slots (pool overflow_result) ! 1) = 4611686018427387904 \<and>
   qty (slots (pool overflow_result) ! 0) + qty (slots (pool overflow_result) ! 1)
     = 9223372036854775808 \<and>
   totalQty (asks (book overflow_result) ! 5000) = - 9223372036854775808"
proof -
  have u: "[0..<2] = [0, Suc 0]" by (simp add: numeral_2_eq_2)
  show ?thesis
    by (simp add: overflow_result_def overflow_session_def perform_def engine_eval
          ring_list_def ring_count_def u del: upt_rec_numeral)
qed


section \<open>Price/time priority\<close>

text \<open>
  Claim C4. The engine refines matching by price/time priority. \<open>side_view s e\<close> is the
  queue of side \<open>s\<close>: its resting orders, best price level first and, within a level,
  from the head of the ring to its tail, each with its client, price and remaining
  quantity. \<open>spec_fill\<close> matches a taker against the first maker of that queue, again and
  again, as long as the taker has quantity left and crosses; \<open>spec_rest\<close> puts a residual
  behind every resting order of its side at a price at least as good, so behind the
  orders admitted before it at its own price.

  From every state satisfying the invariant,
  \<^item> every sweep, of a limit or of a market taker, returns, and it emits exactly the trades
    of \<open>spec_fill\<close>, in that order, leaves exactly its queue on the opposite side and its
    residual with the taker, and does not touch the taker's own side;
  \<^item> every list of good-for-day limit orders and market orders, of either side, that leaves
    no residual to rest returns; and whenever such a list returns, residuals or not, the
    trades it emitted and the two queues it leaves are those of \<open>spec_run\<close>.

  So every match is against the head of the best opposite level, and takers consume the
  makers of a level in the order of their admission.
\<close>

theorem price_time_priority:
  assumes "engine_inv e"
    and "spec_fill (crosses priced (side t) (priceIdx t)) (qty t) (side_view (opposite (side t)) e)
           = (fs1, ms1, q1)"
    and "\<forall>rq\<in>set rqs. is_place rq"
    and "spec_run rqs (side_view BUY e, side_view SELL e) = (fs, (bq, aq), full)"
  shows "(\<exists>e' X. sweep clk priced (t, e) = Some (t\<lparr>qty := q1\<rparr>, e') \<and>
            trades e' = trades e @ X \<and>
            map fill_view X = map (\<lambda>(c, p, m). (clientId t, c, p, m)) fs1 \<and>
            side_view (opposite (side t)) e' = ms1 \<and>
            side_view (side t) e' = side_view (side t) e) \<and>
         (full \<longrightarrow> (\<exists>e'. run clk rqs e = Some e')) \<and>
         (\<forall>e'. run clk rqs e = Some e' \<longrightarrow>
            (\<exists>X. trades e' = trades e @ X \<and> map fill_view X = fs) \<and>
            side_view BUY e' = bq \<and> side_view SELL e' = aq)"
proof -
  from sweep_view[OF assms(1,2), of clk]
  have "\<exists>e' X. sweep clk priced (t, e) = Some (t\<lparr>qty := q1\<rparr>, e') \<and>
            trades e' = trades e @ X \<and>
            map fill_view X = map (\<lambda>(c, p, m). (clientId t, c, p, m)) fs1 \<and>
            side_view (opposite (side t)) e' = ms1 \<and>
            side_view (side t) e' = side_view (side t) e" by blast
  with run_view[OF assms(1,3,4), of clk] show ?thesis by blast
qed

lemma demo_levels_run: "run clk0 preload_levels Engine_init = Some demo_levels"
  by (simp add: demo_levels_def preload_levels_def perform_def engine_eval del: upt_rec_numeral)

text \<open>
  Witness for C4. On the initial engine the three sells leave the asks queue client 1
  (2 at 5000), client 2 (3 at 5000), client 3 (5 at 5001): client 2, admitted last, stands
  behind client 1 at its price and ahead of client 3; the two bids leave the bids queue
  client 5 (4995), client 4 (4990). On that book the three buyers are
  filled completely: they return, and they trade with client 1, then with client 2, whose
  fill empties the level 5000, then twice with client 3 at 5001, who is left with 1. A
  sweep of the limit buy of 10 at 5000 on the same book trades with the clients 1 and 2,
  stops at the level 5001 and leaves the taker with 5.
\<close>

theorem price_time_priority_witness:
  "engine_inv Engine_init \<and> engine_inv demo_levels \<and>
   is_place (PlaceLimit 1 SELL 5000 2 0 GFD) \<and> is_place (PlaceMarket 41 BUY 4 0) \<and>
   run clk0 preload_levels Engine_init = Some demo_levels \<and>
   side_view BUY demo_levels = [(5, 4995, 1), (4, 4990, 1)] \<and>
   side_view SELL demo_levels = [(1, 5000, 2), (2, 5000, 3), (3, 5001, 5)] \<and>
   spec_run three_buyers ([(5, 4995, 1), (4, 4990, 1)], [(1, 5000, 2), (2, 5000, 3), (3, 5001, 5)])
     = ([(40, 1, 5000, 2), (41, 2, 5000, 3), (41, 3, 5001, 1), (42, 3, 5001, 3)],
        ([(5, 4995, 1), (4, 4990, 1)], [(3, 5001, 1)]), True) \<and>
   (\<exists>e'. run clk0 three_buyers demo_levels = Some e' \<and>
      map fill_view (trades e')
        = [(40, 1, 5000, 2), (41, 2, 5000, 3), (41, 3, 5001, 1), (42, 3, 5001, 3)] \<and>
      side_view BUY e' = [(5, 4995, 1), (4, 4990, 1)] \<and> side_view SELL e' = [(3, 5001, 1)]) \<and>
   (\<exists>e'. sweep clk0 True (big_buy, demo_levels) = Some (big_buy\<lparr>qty := 5\<rparr>, e') \<and>
      map fill_view (trades e') = [(50, 1, 5000, 2), (50, 2, 5000, 3)] \<and>
      side_view SELL e' = [(3, 5001, 5)] \<and> side_view BUY e' = [(5, 4995, 1), (4, 4990, 1)])"
proof -
  note i0 = engine_inv_init
  have inv: "engine_inv demo_levels" using i0 demo_levels_run by (rule run_inv)
  have pl: "\<forall>rq\<in>set preload_levels. is_place rq" "\<forall>rq\<in>set three_buyers. is_place rq"
    by (simp_all add: preload_levels_def three_buyers_def is_place_def)
  have s0: "spec_fill (crosses True (side big_buy) (priceIdx big_buy)) (qty big_buy)
              (side_view (opposite (side big_buy)) Engine_init) = ([], [], 10)"
    by (simp add: side_view_init big_buy_def)
  have s1: "spec_run preload_levels (side_view BUY Engine_init, side_view SELL Engine_init)
              = ([], ([(5, 4995, 1), (4, 4990, 1)], [(1, 5000, 2), (2, 5000, 3), (3, 5001, 5)]), False)"
    by (simp add: side_view_init preload_levels_def spec_place_def spec_rest_def ahead_def crosses_def)
  from price_time_priority[OF i0 s0 pl(1) s1, of clk0] demo_levels_run
  obtain X where v: "side_view BUY demo_levels = [(5, 4995, 1), (4, 4990, 1)]"
    "side_view SELL demo_levels = [(1, 5000, 2), (2, 5000, 3), (3, 5001, 5)]"
    and t0: "trades demo_levels = trades Engine_init @ X" "map fill_view X = []" by blast
  have t: "trades demo_levels = []" using t0 by (simp add: Engine_init_def Engine_new_def)
  have s2: "spec_fill (crosses True (side big_buy) (priceIdx big_buy)) (qty big_buy)
              (side_view (opposite (side big_buy)) demo_levels)
            = ([(1, 5000, 2), (2, 5000, 3)], [(3, 5001, 5)], 5)"
    by (simp add: v big_buy_def crosses_def)
  have s3: "spec_run three_buyers ([(5, 4995, 1), (4, 4990, 1)], [(1, 5000, 2), (2, 5000, 3), (3, 5001, 5)])
     = ([(40, 1, 5000, 2), (41, 2, 5000, 3), (41, 3, 5001, 1), (42, 3, 5001, 3)],
        ([(5, 4995, 1), (4, 4990, 1)], [(3, 5001, 1)]), True)"
    by (simp add: three_buyers_def spec_place_def crosses_def)
  have s3': "spec_run three_buyers (side_view BUY demo_levels, side_view SELL demo_levels)
     = ([(40, 1, 5000, 2), (41, 2, 5000, 3), (41, 3, 5001, 1), (42, 3, 5001, 3)],
        ([(5, 4995, 1), (4, 4990, 1)], [(3, 5001, 1)]), True)"
    using s3 by (simp add: v)
  note th = price_time_priority[OF inv s2 pl(2) s3', of clk0]
  from th[THEN conjunct1] obtain e1 X1 where
    a: "sweep clk0 True (big_buy, demo_levels) = Some (big_buy\<lparr>qty := 5\<rparr>, e1)"
       "trades e1 = trades demo_levels @ X1"
       "map fill_view X1 = map (\<lambda>(c, p, m). (clientId big_buy, c, p, m)) [(1, 5000, 2), (2, 5000, 3)]"
       "side_view (opposite (side big_buy)) e1 = [(3, 5001, 5)]"
       "side_view (side big_buy) e1 = side_view (side big_buy) demo_levels"
    by (elim exE conjE)
  from th[THEN conjunct2, THEN conjunct1] obtain e2 where
    b1: "run clk0 three_buyers demo_levels = Some e2" by (elim impE exE) simp
  from th[THEN conjunct2, THEN conjunct2, rule_format, OF b1] obtain X2 where
    b: "trades e2 = trades demo_levels @ X2"
       "map fill_view X2 = [(40, 1, 5000, 2), (41, 2, 5000, 3), (41, 3, 5001, 1), (42, 3, 5001, 3)]"
       "side_view BUY e2 = [(5, 4995, 1), (4, 4990, 1)]" "side_view SELL e2 = [(3, 5001, 1)]"
    by (elim exE conjE)
  have a': "map fill_view (trades e1) = [(50, 1, 5000, 2), (50, 2, 5000, 3)]"
    "side_view SELL e1 = [(3, 5001, 5)]" "side_view BUY e1 = [(5, 4995, 1), (4, 4990, 1)]"
    using a(2-5) t v by (simp_all add: big_buy_def)
  have b': "map fill_view (trades e2)
      = [(40, 1, 5000, 2), (41, 2, 5000, 3), (41, 3, 5001, 1), (42, 3, 5001, 3)]"
    using b(1,2) t by simp
  have ip: "is_place (PlaceLimit 1 SELL 5000 2 0 GFD)" "is_place (PlaceMarket 41 BUY 4 0)"
    by (simp_all add: is_place_def)
  from i0 inv ip demo_levels_run v s3 a(1) a' b1 b' b(3,4) show ?thesis by (intro conjI exI[of _ e2] exI[of _ e1])
qed


section \<open>Replace\<close>

lemma cancel_slot_frame:
  assumes c: "cancel cid e = Some (r, e1)" and m: "clientToEngine e cid = Some eid"
    and g: "get (pool e) eid = Some old"
  shows "\<exists>old'. get (pool e1) eid = Some old' \<and> side old' = side old \<and> tif old' = tif old"
  using c
proof (cases rule: cancelE)
  case absent
  with m show ?thesis by simp
next
  case (inactive eid' ord)
  with m g show ?thesis by simp
next
  case (notfound eid' ord lvl pos p')
  with m g show ?thesis by (auto simp: free_Some get_Some)
next
  case (found eid' ord lvl pos dat p' lv b2)
  with m g show ?thesis by (auto simp: free_Some get_Some)
qed

text \<open>
  Claim C7. \<open>replace_spec\<close> is the specification's reading of replace: false, with the
  state unchanged, when the client id is absent or its order inactive; otherwise
  \<open>cancel\<close> followed by \<open>placeLimit\<close> with the same client id, the side and the
  time-in-force the order had before it was cancelled, and the new price and quantity.
  The source reads side and time-in-force from the pool slot after \<open>cancel\<close> has freed
  it; as \<open>free\<close> keeps both fields, \<open>replace\<close> returns exactly what \<open>replace_spec\<close>
  returns, result and engine state alike.
\<close>

theorem replace_is_cancel_then_place:
  "replace clk cid p q now e = replace_spec clk cid p q now e \<and>
   (clientToEngine e cid = None \<longrightarrow> replace clk cid p q now e = Some (False, e)) \<and>
   (\<forall>eid old. clientToEngine e cid = Some eid \<longrightarrow> get (pool e) eid = Some old \<longrightarrow> \<not> active old \<longrightarrow>
      replace clk cid p q now e = Some (False, e))"
proof (intro conjI)
  show "replace clk cid p q now e = replace_spec clk cid p q now e"
  proof (cases "clientToEngine e cid")
    case None
    then show ?thesis by (simp add: replace_def replace_spec_def)
  next
    case (Some eid)
    show ?thesis
    proof (cases "get (pool e) eid")
      case None
      with Some show ?thesis by (simp add: replace_def replace_spec_def)
    next
      case g: (Some old)
      show ?thesis
      proof (cases "active old")
        case False
        with Some g show ?thesis by (simp add: replace_def replace_spec_def)
      next
        case True
        show ?thesis
        proof (cases "cancel cid e")
          case None
          with Some g True show ?thesis by (simp add: replace_def replace_spec_def)
        next
          case c: (Some re)
          obtain r e1 where re: "re = (r, e1)" by (cases re)
          from cancel_slot_frame[OF c[unfolded re] Some g] obtain old' where
            "get (pool e1) eid = Some old'" "side old' = side old" "tif old' = tif old" by blast
          with Some g True c re show ?thesis by (simp add: replace_def replace_spec_def)
        qed
      qed
    qed
  qed
qed (simp_all add: replace_def)

text \<open>
  Witness for C7: on the three preloaded asks, replacing the order of client 2 by 7 units
  at 5003 succeeds, with the same state as the specification's reading; client 99 is
  absent; and in an empty engine whose index maps client 7 to the inactive slot 0,
  replace returns false.
\<close>

theorem replace_is_cancel_then_place_witness:
  "(\<exists>e'. replace clk0 2 5003 7 0 demo_asks = Some (True, e') \<and>
         replace_spec clk0 2 5003 7 0 demo_asks = Some (True, e') \<and>
         clientToEngine e' 2 \<noteq> None) \<and>
   clientToEngine demo_asks 99 = None \<and>
   replace clk0 99 5003 7 0 demo_asks = Some (False, demo_asks) \<and>
   (\<exists>old. get (pool (Engine_init\<lparr>clientToEngine := [7 \<mapsto> 0]\<rparr>)) 0 = Some old \<and> \<not> active old) \<and>
   replace clk0 7 5003 7 0 (Engine_init\<lparr>clientToEngine := [7 \<mapsto> 0]\<rparr>)
     = Some (False, Engine_init\<lparr>clientToEngine := [7 \<mapsto> 0]\<rparr>)"
proof -
  have a: "\<exists>e'. replace clk0 2 5003 7 0 demo_asks = Some (True, e') \<and> clientToEngine e' 2 \<noteq> None"
    by (simp add: demo_asks_def preload_asks_def perform_def engine_eval del: upt_rec_numeral)
  have b: "clientToEngine demo_asks 99 = None"
    by (simp add: demo_asks_def preload_asks_def perform_def engine_eval del: upt_rec_numeral)
  have c: "get (pool (Engine_init\<lparr>clientToEngine := [7 \<mapsto> 0]\<rparr>)) 0 = Some Order_default"
    "\<not> active Order_default"
    by (simp_all add: Engine_init_def Engine_new_def OrderPool_init_def get_def at_def
          ORDER_POOL_CAPACITY_def Order_default_def)
  have d: "clientToEngine (Engine_init\<lparr>clientToEngine := [7 \<mapsto> 0]\<rparr>) 7 = Some 0" by simp
  from replace_is_cancel_then_place[of clk0 2 5003 7 0 demo_asks]
    replace_is_cancel_then_place[of clk0 99 5003 7 0 demo_asks]
    replace_is_cancel_then_place[of clk0 7 5003 7 0 "Engine_init\<lparr>clientToEngine := [7 \<mapsto> 0]\<rparr>"]
    a b c d
  show ?thesis by (metis (no_types, lifting))
qed


section \<open>Time in force and validation\<close>

text \<open>
  Claim C1, as amended. The engine has no fill-or-kill pre-check and never rejects an
  order: \<open>matchAndAdd\<close> does not read the time-in-force. A limit order placed with
  \<open>FOK\<close> is handled exactly as the same order placed with \<open>GFD\<close>: the two calls fail
  together or return engines with the same book, trades, client index and free list,
  whose pool slots differ at most in the time-in-force they record.
\<close>

theorem fok_placed_as_gfd:
  "rel_option same_up_to_tif (placeLimit clk cid s p q now FOK e) (placeLimit clk cid s p q now GFD e)"
proof -
  have "placeLimit clk cid s p q now FOK e =
          matchAndAdd clk ((Order_default\<lparr>clientId := cid, side := s, otype := LIMIT, priceIdx := p,
            qty := q, ts := now, tif := GFD\<rparr>)\<lparr>tif := FOK\<rparr>) e"
    by (simp add: placeLimit_def)
  then show ?thesis unfolding placeLimit_def[of _ _ _ _ _ _ GFD] by (simp only: matchAndAdd_tif)
qed

text \<open>
  The two calls of C1 on scenario 4 of the specification: both succeed, and the engines
  they return agree up to the recorded time-in-force.
\<close>

theorem fok_placed_as_gfd_witness:
  "placeLimit clk0 30 BUY 5003 10 0 FOK (resting_sell 5003) = Some fok_result \<and>
   (\<exists>e2. placeLimit clk0 30 BUY 5003 10 0 GFD (resting_sell 5003) = Some e2 \<and>
      same_up_to_tif fok_result e2)"
proof -
  have a: "placeLimit clk0 30 BUY 5003 10 0 FOK (resting_sell 5003) = Some fok_result"
    by (simp add: fok_result_def resting_sell_def scen_eval
          del: upt_rec_numeral scanUp.simps scanDown.simps)
  from fok_placed_as_gfd[of clk0 30 BUY 5003 10 0 "resting_sell 5003"] a
  show ?thesis by (cases "placeLimit clk0 30 BUY 5003 10 0 GFD (resting_sell 5003)") simp_all
qed

text \<open>
  Claim C1 as the specification states it fails on scenario 4. The only resting order is
  a sell of 3 units at 5003, so at most 3 units are executable and a fill-or-kill buy of
  10 at 5003 is not satisfiable; the specification expects no trade, an unchanged book
  and no entry for client 30. The call returns normally, one trade of 3 units at 5003 is
  emitted, the ask is consumed, and the residual of 7 rests as the best bid in slot 0,
  under client 30 in the index.
\<close>

theorem fok_not_rejected:
  "placeLimit clk0 1 SELL 5003 3 0 GFD Engine_init = Some (resting_sell 5003) \<and>
   sum_list (map totalQty (asks (book (resting_sell 5003)))) = 3 \<and>
   placeLimit clk0 30 BUY 5003 10 0 FOK (resting_sell 5003) = Some fok_result \<and>
   trades (resting_sell 5003) = [] \<and>
   trades fok_result =
     [\<lparr>takerClient = 30, makerClient = 1, trade_qty = 3, trade_priceIdx = 5003, trade_ts = 0\<rparr>] \<and>
   clientToEngine (resting_sell 5003) 30 = None \<and>
   clientToEngine fok_result 30 = Some 0 \<and>
   bestAsk (book (resting_sell 5003)) = 5003 \<and> bestBid (book (resting_sell 5003)) = -1 \<and>
   bestAsk (book fok_result) = -1 \<and> bestBid (book fok_result) = 5003 \<and>
   totalQty (bids (book fok_result) ! 5003) = 7"
  by (simp add: fok_result_def resting_sell_def clk0_def scen_eval map_update
        sum_list_replicate_upd del: upt_rec_numeral scanUp.simps scanDown.simps)

text \<open>
  Claim C2 fails on scenario 3 of the specification. One sell of 3 units rests at 5002;
  client 20 buys 10 at 5002 immediate-or-cancel. The specification expects the residual
  of 7 to be discarded: no resting order, no pool slot and no index entry for client 20.
  The engine emits the trade of 3 units and then admits the residual: it allocates slot 0
  for it (active, 7 units, time-in-force \<open>IOC\<close>), pushes it on the bid level 5002, makes
  5002 the best bid and maps client 20 to slot 0.
\<close>

theorem ioc_residual_rests:
  "placeLimit clk0 1 SELL 5002 3 0 GFD Engine_init = Some (resting_sell 5002) \<and>
   placeLimit clk0 20 BUY 5002 10 0 IOC (resting_sell 5002) = Some ioc_result \<and>
   trades ioc_result =
     [\<lparr>takerClient = 20, makerClient = 1, trade_qty = 3, trade_priceIdx = 5002, trade_ts = 0\<rparr>] \<and>
   clientToEngine ioc_result 20 = Some 0 \<and>
   get (pool ioc_result) 0 =
     Some \<lparr>clientId = 20, engineId = 0, side = BUY, otype = LIMIT, tif = IOC, priceIdx = 5002,
           qty = 7, ts = 0, active = True\<rparr> \<and>
   bestBid (book ioc_result) = 5002 \<and> bestAsk (book ioc_result) = -1 \<and>
   ring_list (bids (book ioc_result) ! 5002) = [0] \<and>
   totalQty (bids (book ioc_result) ! 5002) = 7"
  by (simp add: ioc_result_def resting_sell_def clk0_def scen_eval ring_list_def ring_count_def
        del: upt_rec_numeral scanUp.simps scanDown.simps)

text \<open>
  Claim C3 fails for a price index out of range. \<open>validIdx\<close> is defined and never
  called: with one sell of 3 units resting at 5000, a buy of 3 units at the index 20001,
  which \<open>validIdx\<close> refuses, returns normally, trades with the resting order at 5000 and
  removes it from the book and from the index. An order with a non-positive quantity
  changes nothing, and the call returns as every other call does.
\<close>

theorem invalid_price_accepted:
  "placeLimit clk0 1 SELL 5000 3 0 GFD Engine_init = Some (resting_sell 5000) \<and>
   \<not> validIdx (resting_sell 5000) 20001 \<and>
   placeLimit clk0 2 BUY 20001 3 0 GFD (resting_sell 5000) = Some invalid_result \<and>
   trades (resting_sell 5000) = [] \<and>
   trades invalid_result =
     [\<lparr>takerClient = 2, makerClient = 1, trade_qty = 3, trade_priceIdx = 5000, trade_ts = 0\<rparr>] \<and>
   bestAsk (book (resting_sell 5000)) = 5000 \<and> bestAsk (book invalid_result) = -1 \<and>
   clientToEngine (resting_sell 5000) 1 = Some 0 \<and> clientToEngine invalid_result 1 = None \<and>
   placeLimit clk0 3 BUY 5000 (-5) 0 GFD Engine_init = Some Engine_init"
  by (simp add: invalid_result_def resting_sell_def clk0_def validIdx_def scen_eval
        del: upt_rec_numeral scanUp.simps scanDown.simps)

end
